theory Spec2Isabelle
  imports Complex_Main "HOL-Library.Word" "HOL-Library.Log_Nat"
begin

section \<open>Data model of \<open>src/app.js\<close>\<close>

text \<open>
  The three classes at the end of the file become records. JavaScript numbers that
  count (\<open>index\<close>, \<open>nonce\<close>, \<open>Date.now()\<close>) are natural numbers; amounts and balances
  are rationals, as every finite IEEE double is. Settlement is given twice: in exact
  arithmetic (\<open>processTransaction\<close>, \<open>addBlock\<close>) and with the rounding of doubles
  (\<open>processTransaction64\<close>, \<open>addBlock64\<close>); \<open>NaN\<close> and the infinities are outside
  the model. A field that can hold \<open>null\<close> or \<open>undefined\<close> is an \<open>option\<close>:
  \<open>Block.hash\<close> is \<open>null\<close> until sealing, \<open>Block.previousHash\<close> is copied from a
  \<open>hash\<close>, and the reward transaction's \<open>to\<close> is \<open>undefined\<close> when no wallet exists.
\<close>

record transaction =
  tx_id :: string
  tx_from :: string
  tx_to :: "string option"
  amount :: rat
  tx_timestamp :: nat

record block =
  index :: nat
  timestamp :: nat
  data :: string
  previousHash :: "string option"
  transactions :: "transaction list"
  nonce :: nat
  hash :: "string option"

record wallet =
  address :: string
  label :: string
  balance :: rat
  createdAt :: nat

text \<open>
  \<open>new Map()\<close> keeps its entries in insertion order: an association list. The fields
  \<open>isMining\<close>, \<open>hashRate\<close> and \<open>miningStartTime\<close> of the simulator are not state of
  the model: the flag is written by the operator between the steps of the search (it is
  an input, see \<open>env\<close>), the other two only feed the display.
\<close>

record simulator =
  blockchain :: "block list"
  transactionPool :: "transaction list"
  wallets :: "(string \<times> wallet) list"
  difficulty :: nat
  miningReward :: rat
  currentNonce :: nat
  blocksMined :: nat

text \<open>
  What the browser supplies: \<open>crypto.subtle.digest('SHA-256', _)\<close> from bytes to the
  32 bytes of the digest, and \<open>JSON.stringify\<close> on the transaction array. Both are
  parameters of the model; every theorem holds for any choice of them.
\<close>

record platform =
  sha256 :: "string \<Rightarrow> 8 word list"
  stringify :: "transaction list \<Rightarrow> string"

text \<open>
  What the outside world decides during one call of \<open>addBlock\<close>: the value of
  \<open>this.isMining\<close> each time the search loop tests it (indexed by the nonce about to be
  tried, which is different at every test), its value when \<open>addBlock\<close> tests it after the
  search, the two readings of \<open>Date.now()\<close> and the random identifier of the reward
  transaction. Calls are modelled one at a time: what other handlers do to the pool or
  the registry while a search is suspended at an \<open>await\<close> is not part of the model.
\<close>

record env =
  isMiningAt :: "nat \<Rightarrow> bool"
  isMiningAfter :: bool
  blockTime :: nat
  rewardId :: string
  rewardTime :: nat

datatype error = UnknownWallet | InsufficientBalance | InvalidAmount | TypeError

definition Block :: "nat \<Rightarrow> nat \<Rightarrow> string \<Rightarrow> string option \<Rightarrow> transaction list \<Rightarrow> block" where
  "Block i ts d ph txs =
     \<lparr>index = i, timestamp = ts, data = d, previousHash = ph, transactions = txs,
      nonce = 0, hash = None\<rparr>"

definition Transaction :: "string \<Rightarrow> nat \<Rightarrow> string \<Rightarrow> string option \<Rightarrow> rat \<Rightarrow> transaction" where
  "Transaction ident ts f t a =
     \<lparr>tx_id = ident, tx_from = f, tx_to = t, amount = a, tx_timestamp = ts\<rparr>"

definition Wallet :: "string \<Rightarrow> string \<Rightarrow> rat \<Rightarrow> nat \<Rightarrow> wallet" where
  "Wallet a l b ts = \<lparr>address = a, label = l, balance = b, createdAt = ts\<rparr>"

definition constructor :: simulator where
  "constructor =
     \<lparr>blockchain = [], transactionPool = [], wallets = [], difficulty = 3,
      miningReward = 10, currentNonce = 0, blocksMined = 0\<rparr>"

section \<open>Strings\<close>

definition digits :: string where
  "digits = ''0123456789abcdef''"

text \<open>
  \<open>n.toString(radix)\<close> on a non-negative integer, for a radix from 2 to 16. A template
  literal prints a number as \<open>toString(10)\<close> does (integers from \<open>10^21\<close> on, which no
  index, clock reading or nonce of the simulator comes near, would print with an exponent).
\<close>

fun toString :: "nat \<Rightarrow> nat \<Rightarrow> string" where
  "toString radix n =
     (if radix < 2 \<or> n < radix then [digits ! n]
      else toString radix (n div radix) @ [digits ! (n mod radix)])"

declare toString.simps [simp del]

definition padStart :: "nat \<Rightarrow> char \<Rightarrow> string \<Rightarrow> string" where
  "padStart n c s = replicate (n - length s) c @ s"

definition startsWith :: "string \<Rightarrow> string \<Rightarrow> bool" where
  "startsWith s t = (take (length t) s = t)"

definition repeat :: "char \<Rightarrow> nat \<Rightarrow> string" where
  "repeat c n = replicate n c"

text \<open>A template literal prints \<open>null\<close> as the four letters.\<close>

definition template :: "string option \<Rightarrow> string" where
  "template v = (case v of None \<Rightarrow> ''null'' | Some s \<Rightarrow> s)"

section \<open>Hashing and sealing\<close>

definition hex :: "8 word list \<Rightarrow> string" where
  "hex hashArray = concat (map (\<lambda>b. padStart 2 (CHR ''0'') (toString 16 (unat b))) hashArray)"

definition serialize :: "platform \<Rightarrow> block \<Rightarrow> string" where
  "serialize pf b =
     toString 10 (index b) @ toString 10 (timestamp b) @ stringify pf (transactions b) @
     template (previousHash b) @ toString 10 (nonce b)"

definition calculateHash :: "platform \<Rightarrow> block \<Rightarrow> string" where
  "calculateHash pf b = hex (sha256 pf (serialize pf b))"

text \<open>
  The \<open>while (this.isMining)\<close> loop of \<open>mineBlock\<close>. The result is \<open>None\<close> when the loop
  never ends, otherwise the returned value (\<open>null\<close> is \<open>None\<close>) with the final
  \<open>this.currentNonce\<close>.
\<close>

partial_function (option) mineLoop ::
  "platform \<Rightarrow> (nat \<Rightarrow> bool) \<Rightarrow> string \<Rightarrow> block \<Rightarrow> nat \<Rightarrow> (block option \<times> nat) option" where
  "mineLoop pf mining target b n =
     (if mining n then
        (if startsWith (calculateHash pf (b\<lparr>nonce := n\<rparr>)) target
         then Some (Some (b\<lparr>nonce := n, hash := Some (calculateHash pf (b\<lparr>nonce := n\<rparr>))\<rparr>), n)
         else mineLoop pf mining target (b\<lparr>nonce := n\<rparr>) (n + 1))
      else Some (None, n))"

definition mineBlock ::
  "platform \<Rightarrow> (nat \<Rightarrow> bool) \<Rightarrow> simulator \<Rightarrow> block \<Rightarrow> (block option \<times> simulator) option" where
  "mineBlock pf mining s b =
     (case mineLoop pf mining (repeat (CHR ''0'') (difficulty s)) b 0 of
        None \<Rightarrow> None
      | Some (r, n) \<Rightarrow> Some (r, s\<lparr>currentNonce := n\<rparr>))"

section \<open>The ledger\<close>

definition createGenesisBlock :: "platform \<Rightarrow> nat \<Rightarrow> simulator \<Rightarrow> simulator" where
  "createGenesisBlock pf now s =
     s\<lparr>blockchain := blockchain s @
        [(Block 0 now ''Genesis Block - The beginning of our blockchain'' (Some ''0'') [])
           \<lparr>hash := Some (calculateHash pf
              (Block 0 now ''Genesis Block - The beginning of our blockchain'' (Some ''0'') []))\<rparr>]\<rparr>"

text \<open>
  \<open>wallet.balance += x\<close> and \<open>wallet.balance -= x\<close> on the wallet object that
  \<open>this.wallets.get(k)\<close> returned: the first entry with key \<open>k\<close> gets the new balance.
\<close>

fun adjust :: "string \<Rightarrow> (rat \<Rightarrow> rat) \<Rightarrow> (string \<times> wallet) list \<Rightarrow> (string \<times> wallet) list" where
  "adjust k f [] = []"
| "adjust k f ((a, w) # ws) =
     (if a = k then (a, w\<lparr>balance := f (balance w)\<rparr>) # ws else (a, w) # adjust k f ws)"

text \<open>\<open>this.wallets.get(tx.to)\<close>; no key is \<open>undefined\<close>.\<close>

definition getTo :: "(string \<times> wallet) list \<Rightarrow> string option \<Rightarrow> (string \<times> wallet) option" where
  "getTo ws t = (case t of None \<Rightarrow> None
                 | Some k \<Rightarrow> (case map_of ws k of None \<Rightarrow> None | Some w \<Rightarrow> Some (k, w)))"

text \<open>
  The callback of \<open>transactions.forEach\<close> in \<open>processTransactions\<close>, in exact arithmetic:
  what the callback does when no sum or difference is rounded.
\<close>

definition processTransaction :: "(string \<times> wallet) list \<Rightarrow> transaction \<Rightarrow> (string \<times> wallet) list" where
  "processTransaction ws tx =
     (if tx_from tx = ''System'' then
        (case getTo ws (tx_to tx) of
           Some (k, w) \<Rightarrow> adjust k (\<lambda>b. b + amount tx) ws
         | None \<Rightarrow> ws)
      else
        (case map_of ws (tx_from tx) of
           None \<Rightarrow> ws
         | Some fromWallet \<Rightarrow>
             (case getTo ws (tx_to tx) of
                None \<Rightarrow> ws
              | Some (k, toWallet) \<Rightarrow>
                  if amount tx \<le> balance fromWallet
                  then adjust k (\<lambda>b. b + amount tx) (adjust (tx_from tx) (\<lambda>b. b - amount tx) ws)
                  else ws)))"

definition processTransactions :: "(string \<times> wallet) list \<Rightarrow> transaction list \<Rightarrow> (string \<times> wallet) list" where
  "processTransactions ws txs = foldl processTransaction ws txs"

text \<open>The candidate of \<open>addBlock\<close>: the block handed to \<open>mineBlock\<close>.\<close>

definition minerAddress :: "simulator \<Rightarrow> string option" where
  "minerAddress s = (case map fst (wallets s) of [] \<Rightarrow> None | a # _ \<Rightarrow> Some a)"

definition rewardTransaction :: "env \<Rightarrow> simulator \<Rightarrow> transaction" where
  "rewardTransaction ev s =
     Transaction (rewardId ev) (rewardTime ev) ''System'' (minerAddress s) (miningReward s)"

definition newBlock :: "env \<Rightarrow> simulator \<Rightarrow> block" where
  "newBlock ev s =
     Block (index (blockchain s ! (length (blockchain s) - 1)) + 1)
       (blockTime ev)
       (''Block '' @ toString 10 (index (blockchain s ! (length (blockchain s) - 1)) + 1))
       (hash (blockchain s ! (length (blockchain s) - 1)))
       (rewardTransaction ev s # take 10 (transactionPool s))"

text \<open>
  \<open>addBlock\<close> returns \<open>undefined\<close> after the genesis block and \<open>null\<close> when nothing was
  appended; both are \<open>None\<close> in the first component. The outer \<open>option\<close> is \<open>None\<close> when
  the search never ends.
\<close>

definition addBlock :: "platform \<Rightarrow> env \<Rightarrow> simulator \<Rightarrow> (block option \<times> simulator) option" where
  "addBlock pf ev s =
     (if length (blockchain s) = 0 then Some (None, createGenesisBlock pf (blockTime ev) s)
      else
        (case mineBlock pf (isMiningAt ev)
                (s\<lparr>transactionPool := drop 10 (transactionPool s)\<rparr>) (newBlock ev s) of
           None \<Rightarrow> None
         | Some (None, s') \<Rightarrow> Some (None, s')
         | Some (Some minedBlock, s') \<Rightarrow>
             if isMiningAfter ev then
               Some (Some minedBlock,
                 s'\<lparr>blockchain := blockchain s' @ [minedBlock],
                    blocksMined := blocksMined s' + 1,
                    wallets := processTransactions (wallets s') (transactions (newBlock ev s))\<rparr>)
             else Some (None, s')))"

text \<open>
  The loop of \<open>validateChain\<close>, from \<open>i\<close> on. \<open>currentBlock.hash.startsWith\<close> throws a
  \<open>TypeError\<close> when the hash is \<open>null\<close>.
\<close>

function validateLoop :: "simulator \<Rightarrow> nat \<Rightarrow> error + bool" where
  "validateLoop s i =
     (if i < length (blockchain s) then
        (case hash (blockchain s ! i) of
           None \<Rightarrow> Inl TypeError
         | Some h \<Rightarrow>
             if \<not> startsWith h (repeat (CHR ''0'') (difficulty s)) then Inr False
             else if previousHash (blockchain s ! i) \<noteq> hash (blockchain s ! (i - 1)) then Inr False
             else validateLoop s (i + 1))
      else Inr True)"
  by pat_completeness auto
termination
  by (relation "measure (\<lambda>(s, i). length (blockchain s) - i)") auto

declare validateLoop.simps [simp del]

definition validateChain :: "simulator \<Rightarrow> error + bool" where
  "validateChain s = validateLoop s 1"

section \<open>Wallets and the pool\<close>

definition generateAddress :: "platform \<Rightarrow> string \<Rightarrow> string" where
  "generateAddress pf randomData = ''bc1q'' @ take 39 (hex (sha256 pf randomData))"

text \<open>\<open>this.wallets.set(k, v)\<close>: a known key keeps its place, a new one goes last.\<close>

fun Map_set :: "string \<Rightarrow> wallet \<Rightarrow> (string \<times> wallet) list \<Rightarrow> (string \<times> wallet) list" where
  "Map_set k v [] = [(k, v)]"
| "Map_set k v ((a, w) # ws) = (if a = k then (k, v) # ws else (a, w) # Map_set k v ws)"

text \<open>
  \<open>createWallet(label, initialBalance)\<close>; \<open>randomData\<close> is what
  \<open>crypto.getRandomValues\<close> gave and \<open>now\<close> the clock. A label that is \<open>null\<close> or
  empty is replaced (\<open>label || ...\<close>).
\<close>

definition createWallet ::
  "platform \<Rightarrow> string \<Rightarrow> nat \<Rightarrow> string option \<Rightarrow> rat \<Rightarrow> simulator \<Rightarrow> wallet \<times> simulator" where
  "createWallet pf randomData now lbl initialBalance s =
     (let wallet = Wallet (generateAddress pf randomData)
                     (case lbl of
                        None \<Rightarrow> ''Wallet '' @ toString 10 (length (wallets s) + 1)
                      | Some l \<Rightarrow> if l = [] then ''Wallet '' @ toString 10 (length (wallets s) + 1) else l)
                     initialBalance now
      in (wallet, s\<lparr>wallets := Map_set (generateAddress pf randomData) wallet (wallets s)\<rparr>))"

text \<open>
  \<open>addTransaction(from, to, amount)\<close>; \<open>ident\<close> and \<open>now\<close> are the random identifier and
  the clock reading of the \<open>Transaction\<close> constructor. The three \<open>throw\<close> statements are
  the errors \<open>UnknownWallet\<close> ('Invalid wallet address'), \<open>InsufficientBalance\<close>
  ('Insufficient balance') and \<open>InvalidAmount\<close> ('Amount must be positive'), tested in
  this order. The result pairs what the call returns or throws with the state it leaves.
\<close>

definition addTransaction ::
  "string \<Rightarrow> nat \<Rightarrow> string \<Rightarrow> string \<Rightarrow> rat \<Rightarrow> simulator \<Rightarrow> (error + transaction) \<times> simulator" where
  "addTransaction ident now f t a s =
     (case map_of (wallets s) f of
        None \<Rightarrow> (Inl UnknownWallet, s)
      | Some fromWallet \<Rightarrow>
          (case map_of (wallets s) t of
             None \<Rightarrow> (Inl UnknownWallet, s)
           | Some toWallet \<Rightarrow>
               if balance fromWallet < a then (Inl InsufficientBalance, s)
               else if a \<le> 0 then (Inl InvalidAmount, s)
               else (Inr (Transaction ident now f (Some t) a),
                     s\<lparr>transactionPool := transactionPool s @ [Transaction ident now f (Some t) a]\<rparr>)))"

text \<open>The difficulty slider.\<close>

definition setDifficulty :: "nat \<Rightarrow> simulator \<Rightarrow> simulator" where
  "setDifficulty d s = s\<lparr>difficulty := d\<rparr>"

section \<open>The arithmetic of JavaScript numbers\<close>

text \<open>
  The arithmetic of \<open>app.js\<close>. A JavaScript number is an IEEE 754 binary64 value; every
  finite one is a rational. \<open>x + y\<close> and \<open>x - y\<close> are the exact sum and difference rounded
  to the nearest value with 53 significant bits, ties to the even one. \<open>expo x\<close> is the
  exponent of the last of these bits, never below \<open>- tiny\<close>: the smallest positive value
  is \<open>2^-1074\<close>. The infinities and \<open>NaN\<close> are outside the model.
\<close>

definition roundEven :: "rat \<Rightarrow> int" where
  "roundEven y =
     (if y - of_int \<lfloor>y\<rfloor> < 1 / 2 then \<lfloor>y\<rfloor>
      else if 1 / 2 < y - of_int \<lfloor>y\<rfloor> then \<lfloor>y\<rfloor> + 1
      else if even \<lfloor>y\<rfloor> then \<lfloor>y\<rfloor> else \<lfloor>y\<rfloor> + 1)"

definition tiny :: nat where
  "tiny = 1074"

definition expo :: "rat \<Rightarrow> int" where
  "expo x = max (bitlen \<lfloor>\<bar>x\<bar> * 2 ^ tiny\<rfloor> - (int tiny + 53)) (- int tiny)"

definition round64 :: "rat \<Rightarrow> rat" where
  "round64 x = of_int (roundEven (x / 2 powi expo x)) * 2 powi expo x"

text \<open>
  A sum or difference of magnitude \<open>2^1024 - 2^970\<close> or more rounds to an infinity in the
  code; \<open>round64\<close> is the code's result below that bound only.
\<close>

definition finite64 :: "rat \<Rightarrow> bool" where
  "finite64 x \<longleftrightarrow> \<bar>x\<bar> < 2 ^ 1024 - 2 ^ 970"

section \<open>The ledger with rounding\<close>

text \<open>
  Settlement as \<open>app.js\<close> computes it: the callback of \<open>processTransactions\<close> once more,
  line by line as \<open>processTransaction\<close> above, with \<open>+=\<close> and \<open>-=\<close> rounding as the
  arithmetic of JavaScript numbers does. The comparison \<open>fromWallet.balance >= tx.amount\<close>
  compares the two values and is exact.
\<close>

definition processTransaction64 :: "(string \<times> wallet) list \<Rightarrow> transaction \<Rightarrow> (string \<times> wallet) list" where
  "processTransaction64 ws tx =
     (if tx_from tx = ''System'' then
        (case getTo ws (tx_to tx) of
           Some (k, w) \<Rightarrow> adjust k (\<lambda>b. round64 (b + amount tx)) ws
         | None \<Rightarrow> ws)
      else
        (case map_of ws (tx_from tx) of
           None \<Rightarrow> ws
         | Some fromWallet \<Rightarrow>
             (case getTo ws (tx_to tx) of
                None \<Rightarrow> ws
              | Some (k, toWallet) \<Rightarrow>
                  if amount tx \<le> balance fromWallet
                  then adjust k (\<lambda>b. round64 (b + amount tx))
                         (adjust (tx_from tx) (\<lambda>b. round64 (b - amount tx)) ws)
                  else ws)))"

definition processTransactions64 :: "(string \<times> wallet) list \<Rightarrow> transaction list \<Rightarrow> (string \<times> wallet) list" where
  "processTransactions64 ws txs = foldl processTransaction64 ws txs"

text \<open>\<open>addBlock\<close> with that settlement; the rest is as in \<open>addBlock\<close> above.\<close>

definition addBlock64 :: "platform \<Rightarrow> env \<Rightarrow> simulator \<Rightarrow> (block option \<times> simulator) option" where
  "addBlock64 pf ev s =
     (if length (blockchain s) = 0 then Some (None, createGenesisBlock pf (blockTime ev) s)
      else
        (case mineBlock pf (isMiningAt ev)
                (s\<lparr>transactionPool := drop 10 (transactionPool s)\<rparr>) (newBlock ev s) of
           None \<Rightarrow> None
         | Some (None, s') \<Rightarrow> Some (None, s')
         | Some (Some minedBlock, s') \<Rightarrow>
             if isMiningAfter ev then
               Some (Some minedBlock,
                 s'\<lparr>blockchain := blockchain s' @ [minedBlock],
                    blocksMined := blocksMined s' + 1,
                    wallets := processTransactions64 (wallets s') (transactions (newBlock ev s))\<rparr>)
             else Some (None, s')))"


section \<open>Admission as specified\<close>

text \<open>Admission as the specification words it: the amount is tested before the balance.\<close>

definition submitTransaction ::
  "string \<Rightarrow> nat \<Rightarrow> string \<Rightarrow> string \<Rightarrow> rat \<Rightarrow> simulator \<Rightarrow> (error + transaction) \<times> simulator" where
  "submitTransaction ident now f t a s =
     (case map_of (wallets s) f of
        None \<Rightarrow> (Inl UnknownWallet, s)
      | Some fromWallet \<Rightarrow>
          (case map_of (wallets s) t of
             None \<Rightarrow> (Inl UnknownWallet, s)
           | Some toWallet \<Rightarrow>
               if a \<le> 0 then (Inl InvalidAmount, s)
               else if balance fromWallet < a then (Inl InsufficientBalance, s)
               else (Inr (Transaction ident now f (Some t) a),
                     s\<lparr>transactionPool := transactionPool s @ [Transaction ident now f (Some t) a]\<rparr>)))"

section \<open>Auxiliary notions\<close>

text \<open>Nonce \<open>m\<close> seals \<open>b\<close>: the test \<open>hash.startsWith(target)\<close> of the loop succeeds.\<close>

definition hit :: "platform \<Rightarrow> string \<Rightarrow> block \<Rightarrow> nat \<Rightarrow> bool" where
  "hit pf target b m = startsWith (calculateHash pf (b\<lparr>nonce := m\<rparr>)) target"

text \<open>The block the loop returns when it stops at nonce \<open>k\<close>.\<close>

definition sealed :: "platform \<Rightarrow> block \<Rightarrow> nat \<Rightarrow> block" where
  "sealed pf b k = b\<lparr>nonce := k, hash := Some (calculateHash pf (b\<lparr>nonce := k\<rparr>))\<rparr>"


text \<open>
  The two tests \<open>validateChain\<close> makes on block \<open>i\<close> and its predecessor both succeed.
\<close>

definition linked :: "simulator \<Rightarrow> nat \<Rightarrow> bool" where
  "linked s i \<longleftrightarrow>
     (case hash (blockchain s ! i) of
        None \<Rightarrow> False
      | Some h \<Rightarrow> startsWith h (repeat (CHR ''0'') (difficulty s))) \<and>
     previousHash (blockchain s ! i) = hash (blockchain s ! (i - 1))"

text \<open>Block \<open>i\<close> gets another \<open>previousHash\<close> after the fact.\<close>

definition tamper :: "nat \<Rightarrow> string option \<Rightarrow> simulator \<Rightarrow> simulator" where
  "tamper i p s = s\<lparr>blockchain := (blockchain s)[i := (blockchain s ! i)\<lparr>previousHash := p\<rparr>]\<rparr>"

section \<open>Reachable states\<close>

text \<open>
  The states the simulator can be in: from the constructor, by creating wallets with a
  non-negative initial balance, creating the genesis block, submitting transactions,
  moving the difficulty slider and producing blocks, each call run to its end.
\<close>

inductive reachable :: "platform \<Rightarrow> simulator \<Rightarrow> bool" for pf :: platform where
  start: "reachable pf constructor"
| wallet: "reachable pf s \<Longrightarrow> 0 \<le> initialBalance \<Longrightarrow>
     reachable pf (snd (createWallet pf randomData now lbl initialBalance s))"
| genesis: "reachable pf s \<Longrightarrow> reachable pf (createGenesisBlock pf now s)"
| submit: "reachable pf s \<Longrightarrow> reachable pf (snd (addTransaction ident now f t a s))"
| slider: "reachable pf s \<Longrightarrow> reachable pf (setDifficulty d s)"
| produce: "reachable pf s \<Longrightarrow> addBlock pf ev s = Some (r, s') \<Longrightarrow> reachable pf s'"

definition nonneg :: "(string \<times> wallet) list \<Rightarrow> bool" where
  "nonneg ws = (\<forall>e \<in> set ws. 0 \<le> balance (snd e))"


text \<open>
  Two more facts of the reachable states: both parties of every pooled transaction are
  registered, and every block of the chain has its hash.
\<close>

definition wellformed :: "simulator \<Rightarrow> bool" where
  "wellformed s \<longleftrightarrow>
     (\<forall>tx \<in> set (transactionPool s).
        tx_from tx \<in> set (map fst (wallets s)) \<and>
        (case tx_to tx of None \<Rightarrow> False | Some t \<Rightarrow> t \<in> set (map fst (wallets s)))) \<and>
     (\<forall>b \<in> set (blockchain s). hash b \<noteq> None)"

text \<open>
  The states the simulator can be in when it settles with rounding: from the
  constructor, by creating wallets, creating the genesis block, submitting transactions,
  moving the difficulty slider and producing blocks, each call run to its end.
\<close>

inductive reachable64 :: "platform \<Rightarrow> simulator \<Rightarrow> bool" for pf :: platform where
  start64: "reachable64 pf constructor"
| wallet64: "reachable64 pf s \<Longrightarrow>
     reachable64 pf (snd (createWallet pf randomData now lbl initialBalance s))"
| genesis64: "reachable64 pf s \<Longrightarrow> reachable64 pf (createGenesisBlock pf now s)"
| submit64: "reachable64 pf s \<Longrightarrow> reachable64 pf (snd (addTransaction ident now f t a s))"
| slider64: "reachable64 pf s \<Longrightarrow> reachable64 pf (setDifficulty d s)"
| produce64: "reachable64 pf s \<Longrightarrow> addBlock64 pf ev s = Some (r, s') \<Longrightarrow> reachable64 pf s'"

text \<open>What these states satisfy: the reward is 10, and no address is the sentinel.\<close>

definition keysOk :: "simulator \<Rightarrow> bool" where
  "keysOk s \<longleftrightarrow>
     miningReward s = 10 \<and>
     (\<forall>e \<in> set (wallets s). take 4 (fst e) = ''bc1q'') \<and>
     (\<forall>tx \<in> set (transactionPool s). take 4 (tx_from tx) = ''bc1q'')"

section \<open>Worked example: data\<close>

text \<open>
  A stand-in for the browser. The first byte of its digest is zero exactly when the
  input ends in the character \<open>2\<close>, the second byte tells the input \<open>A\<close> from the
  others, so that at difficulty 3 the search succeeds at nonce 2.
\<close>

definition demoDigest :: "string \<Rightarrow> 8 word list" where
  "demoDigest bytes =
     (if bytes \<noteq> [] \<and> last bytes = CHR ''2'' then 0 else 0x5A) #
     (if bytes = ''A'' then 0x0A else 0x0B) # replicate 30 0xAB"

definition demo :: platform where
  "demo = \<lparr>sha256 = demoDigest, stringify = (\<lambda>txs. concat (map (\<lambda>tx. tx_id tx @ '';'') txs))\<rparr>"

definition demoBlock :: block where
  "demoBlock = Block 1 7 ''Block 1'' (Some ''5a0b'') []"

text \<open>
  A run: Alice with 100 and Bob with 0 are created, the genesis block is made, Alice
  submits 30 for Bob, a block is produced with the flag on throughout.
\<close>

definition addrA :: string where
  "addrA = generateAddress demo ''A''"

definition addrB :: string where
  "addrB = generateAddress demo ''B''"

definition demo1 :: simulator where
  "demo1 = snd (createWallet demo ''A'' 1 (Some ''Alice'') 100 constructor)"

definition demo2 :: simulator where
  "demo2 = snd (createWallet demo ''B'' 2 (Some ''Bob'') 0 demo1)"

definition demo3 :: simulator where
  "demo3 = createGenesisBlock demo 3 demo2"

definition demoTx :: transaction where
  "demoTx = Transaction ''tx_1'' 4 addrA (Some addrB) 30"

definition demo4 :: simulator where
  "demo4 = snd (addTransaction ''tx_1'' 4 addrA addrB 30 demo3)"

definition demoEnv :: env where
  "demoEnv = \<lparr>isMiningAt = (\<lambda>n. True), isMiningAfter = True, blockTime = 5,
              rewardId = ''tx_r'', rewardTime = 5\<rparr>"

definition demoMined :: block where
  "demoMined = sealed demo (newBlock demoEnv demo4) 2"

definition demo5 :: simulator where
  "demo5 = demo4\<lparr>blockchain := blockchain demo4 @ [demoMined],
                 transactionPool := drop 10 (transactionPool demo4),
                 wallets := processTransactions (wallets demo4) (transactions (newBlock demoEnv demo4)),
                 currentNonce := 2,
                 blocksMined := blocksMined demo4 + 1\<rparr>"

text \<open>The operator stops mining while nonce 0 is being tried.\<close>

definition stopEnv :: env where
  "stopEnv = demoEnv\<lparr>isMiningAt := (\<lambda>n. n < 1)\<rparr>"

text \<open>Alice sends 30 to herself.\<close>

definition selfTx :: transaction where
  "selfTx = Transaction ''tx_2'' 4 addrA (Some addrA) 30"




text \<open>The values of the literals \<open>0.21\<close>, \<open>0.05\<close> and \<open>0.1\<close>.\<close>

definition cent21 :: rat where
  "cent21 = round64 (21 / 100)"

definition cent5 :: rat where
  "cent5 = round64 (5 / 100)"


text \<open>A wallet holding 0.21 sends 0.05 to itself.\<close>

definition cents :: simulator where
  "cents = snd (createWallet demo ''A'' 1 (Some ''Alice'') cent21 constructor)"

definition centsTx :: transaction where
  "centsTx = Transaction ''tx_2'' 4 addrA (Some addrA) cent5"





text \<open>The genesis block of that run.\<close>

definition demoGenesis :: block where
  "demoGenesis =
     (Block 0 3 ''Genesis Block - The beginning of our blockchain'' (Some ''0'') [])
       \<lparr>hash := Some (''5a0b'' @ concat (replicate 30 ''ab''))\<rparr>"

section \<open>The sealing loop\<close>

lemma calculateHash_nonce [simp]:
  "calculateHash pf (b\<lparr>nonce := n, hash := h\<rparr>) = calculateHash pf (b\<lparr>nonce := n\<rparr>)"
  by (simp add: calculateHash_def serialize_def)

lemma hit_nonce [simp]: "hit pf target (b\<lparr>nonce := j\<rparr>) m = hit pf target b m"
  by (simp add: hit_def)

lemma sealed_nonce [simp]: "sealed pf (b\<lparr>nonce := j\<rparr>) k = sealed pf b k"
  by (simp add: sealed_def)

lemma mineLoop_step:
  "mining n \<Longrightarrow> \<not> hit pf target b n \<Longrightarrow>
     mineLoop pf mining target b n = mineLoop pf mining target (b\<lparr>nonce := n\<rparr>) (Suc n)"
  by (subst mineLoop.simps) (simp add: hit_def)

lemma mineLoop_hit:
  "mining n \<Longrightarrow> hit pf target b n \<Longrightarrow>
     mineLoop pf mining target b n = Some (Some (sealed pf b n), n)"
  by (subst mineLoop.simps) (simp add: hit_def sealed_def)

lemma mineLoop_off:
  "\<not> mining n \<Longrightarrow> mineLoop pf mining target b n = Some (None, n)"
  by (subst mineLoop.simps) simp

text \<open>
  Whatever the loop returns, it returns at the first nonce where the flag is off or the
  hash has the prefix. Fixpoint induction: nothing is assumed about termination.
\<close>

lemma mineLoop_result:
  assumes "mineLoop pf mining target b n = Some y"
  shows "n \<le> snd y \<and> (\<forall>m. n \<le> m \<and> m < snd y \<longrightarrow> mining m \<and> \<not> hit pf target b m) \<and>
         (case fst y of
            None \<Rightarrow> \<not> mining (snd y)
          | Some b' \<Rightarrow> mining (snd y) \<and> hit pf target b (snd y) \<and> b' = sealed pf b (snd y))"
  using assms
proof (induct pf mining target b n y rule: mineLoop.raw_induct [rotated 1, consumes 1, case_names step])
  case (step loop pf mining target b n y)
  show ?case
  proof (cases "mining n")
    case False
    with step(2) show ?thesis by auto
  next
    case True
    note m = this
    show ?thesis
    proof (cases "hit pf target b n")
      case True
      with m step(2) show ?thesis by (auto simp: hit_def sealed_def)
    next
      case False
      with m step(2) have r: "loop pf mining target (b\<lparr>nonce := n\<rparr>) (n + 1) = Some y"
        by (simp add: hit_def)
      have ih: "n + 1 \<le> snd y"
         "\<forall>j. n + 1 \<le> j \<and> j < snd y \<longrightarrow> mining j \<and> \<not> hit pf target b j"
         "(case fst y of
            None \<Rightarrow> \<not> mining (snd y)
          | Some b' \<Rightarrow> mining (snd y) \<and> hit pf target b (snd y) \<and> b' = sealed pf b (snd y))"
        using step(1)[OF r] by (simp_all split: option.splits)
      have "\<forall>j. n \<le> j \<and> j < snd y \<longrightarrow> mining j \<and> \<not> hit pf target b j"
      proof (intro allI impI)
        fix j assume "n \<le> j \<and> j < snd y"
        then have "j = n \<or> (n + 1 \<le> j \<and> j < snd y)" by arith
        then show "mining j \<and> \<not> hit pf target b j"
          using m False ih(2) by blast
      qed
      moreover have "n \<le> snd y" using ih(1) by simp
      ultimately show ?thesis using ih(3) by blast
    qed
  qed
qed

text \<open>The loop does return when the flag goes off, or a sealing nonce comes, after \<open>d\<close> failed attempts.\<close>

lemma mineLoop_stops_from:
  "\<forall>m. n \<le> m \<and> m < n + d \<longrightarrow> mining m \<and> \<not> hit pf target b m \<Longrightarrow> \<not> mining (n + d) \<Longrightarrow>
     mineLoop pf mining target b n = Some (None, n + d)"
proof (induct d arbitrary: n b)
  case 0
  then show ?case by (simp add: mineLoop_off)
next
  case (Suc d)
  have a: "mining n" "\<not> hit pf target b n" using Suc.prems(1) by auto
  have b: "\<forall>m. Suc n \<le> m \<and> m < Suc n + d \<longrightarrow> mining m \<and> \<not> hit pf target (b\<lparr>nonce := n\<rparr>) m"
    using Suc.prems(1) by simp
  have c: "\<not> mining (Suc n + d)" using Suc.prems(2) by simp
  show ?case using Suc.hyps[OF b c] a by (simp add: mineLoop_step)
qed

lemma mineLoop_finds_from:
  "\<forall>m. n \<le> m \<and> m < n + d \<longrightarrow> mining m \<and> \<not> hit pf target b m \<Longrightarrow> mining (n + d) \<Longrightarrow>
   hit pf target b (n + d) \<Longrightarrow>
     mineLoop pf mining target b n = Some (Some (sealed pf b (n + d)), n + d)"
proof (induct d arbitrary: n b)
  case 0
  then show ?case by (simp add: mineLoop_hit)
next
  case (Suc d)
  have a: "mining n" "\<not> hit pf target b n" using Suc.prems(1) by auto
  have b: "\<forall>m. Suc n \<le> m \<and> m < Suc n + d \<longrightarrow> mining m \<and> \<not> hit pf target (b\<lparr>nonce := n\<rparr>) m"
    using Suc.prems(1) by simp
  have c: "mining (Suc n + d)" "hit pf target (b\<lparr>nonce := n\<rparr>) (Suc n + d)"
    using Suc.prems(2,3) by simp_all
  show ?case using Suc.hyps[OF b c] a by (simp add: mineLoop_step)
qed

lemma mineBlock_result:
  assumes "mineBlock pf mining s b = Some (r, s')"
  shows "s' = s\<lparr>currentNonce := currentNonce s'\<rparr> \<and>
         (\<forall>m. m < currentNonce s' \<longrightarrow>
            mining m \<and> \<not> hit pf (repeat (CHR ''0'') (difficulty s)) b m) \<and>
         (case r of
            None \<Rightarrow> \<not> mining (currentNonce s')
          | Some b' \<Rightarrow> mining (currentNonce s') \<and>
              hit pf (repeat (CHR ''0'') (difficulty s)) b (currentNonce s') \<and>
              b' = sealed pf b (currentNonce s'))"
proof -
  from assms obtain n where
    l: "mineLoop pf mining (repeat (CHR ''0'') (difficulty s)) b 0 = Some (r, n)"
    and s': "s' = s\<lparr>currentNonce := n\<rparr>"
    by (auto simp: mineBlock_def split: option.splits)
  from mineLoop_result[OF l] s' show ?thesis by (auto split: option.splits)
qed

text \<open>
  C1. Whenever \<open>mineBlock\<close> returns a block, at any difficulty, the block's \<open>hash\<close> is
  the hexadecimal SHA-256 digest of the string made of index, timestamp, transactions,
  previous hash and the final nonce, and that string of hexadecimal digits starts with
  \<open>difficulty\<close> characters \<open>0\<close>.
\<close>

theorem C1_mined_block_is_sealed:
  assumes "mineBlock pf mining s b = Some (Some b', s')"
  shows "hash b' = Some (calculateHash pf b') \<and>
         calculateHash pf b' =
           hex (sha256 pf (toString 10 (index b) @ toString 10 (timestamp b) @
                 stringify pf (transactions b) @ template (previousHash b) @
                 toString 10 (nonce b'))) \<and>
         difficulty s \<le> length (calculateHash pf b') \<and>
         take (difficulty s) (calculateHash pf b') = replicate (difficulty s) (CHR ''0'') \<and>
         startsWith (calculateHash pf b') (repeat (CHR ''0'') (difficulty s))"
proof -
  let ?k = "currentNonce s'"
  from mineBlock_result[OF assms]
  have h: "hit pf (repeat (CHR ''0'') (difficulty s)) b ?k" and b': "b' = sealed pf b ?k"
    by simp_all
  have c: "calculateHash pf b' = calculateHash pf (b\<lparr>nonce := ?k\<rparr>)"
    by (simp add: b' sealed_def)
  from h have sw: "startsWith (calculateHash pf b') (repeat (CHR ''0'') (difficulty s))"
    by (simp add: hit_def c)
  then have tk: "take (difficulty s) (calculateHash pf b') = replicate (difficulty s) (CHR ''0'')"
    by (simp add: startsWith_def repeat_def)
  have "length (take (difficulty s) (calculateHash pf b')) = difficulty s"
    by (simp only: tk length_replicate)
  then have le: "difficulty s \<le> length (calculateHash pf b')"
    by simp
  have ser: "calculateHash pf b' =
           hex (sha256 pf (toString 10 (index b) @ toString 10 (timestamp b) @
                 stringify pf (transactions b) @ template (previousHash b) @
                 toString 10 (nonce b')))"
    by (simp add: calculateHash_def serialize_def b' sealed_def)
  have "hash b' = Some (calculateHash pf b')"
    by (simp add: c) (simp add: b' sealed_def)
  with ser le tk sw show ?thesis by blast
qed

lemmas demo_eval = demo_def demoDigest_def demoBlock_def Block_def calculateHash_def serialize_def
  hex_def padStart_def digits_def template_def startsWith_def repeat_def toString.simps

lemma demo_hash: "calculateHash demo (demoBlock\<lparr>nonce := 2\<rparr>) = ''000b'' @ concat (replicate 30 ''ab'')"
  by (simp add: demo_eval)

lemma demo_mine:
  "mineBlock demo (\<lambda>n. True) constructor demoBlock =
     Some (Some (sealed demo demoBlock 2), constructor\<lparr>currentNonce := 2\<rparr>)"
proof -
  have a: "\<forall>m. 0 \<le> m \<and> m < 0 + 2 \<longrightarrow> True \<and> \<not> hit demo ''000'' demoBlock m"
  proof (intro allI impI)
    fix m :: nat assume "0 \<le> m \<and> m < 0 + 2"
    then have "m = 0 \<or> m = 1" by arith
    then show "True \<and> \<not> hit demo ''000'' demoBlock m"
      by (auto simp: hit_def demo_eval)
  qed
  have b: "hit demo ''000'' demoBlock (0 + 2)"
    by (simp add: hit_def demo_eval)
  have "mineLoop demo (\<lambda>n. True) ''000'' demoBlock 0 = Some (Some (sealed demo demoBlock (0 + 2)), 0 + 2)"
    by (rule mineLoop_finds_from[OF a _ b]) simp
  then have "mineLoop demo (\<lambda>n. True) ''000'' demoBlock 0 = Some (Some (sealed demo demoBlock 2), 2)"
    by (simp only: add_0)
  then show ?thesis
    by (simp add: mineBlock_def repeat_def constructor_def numeral_3_eq_3)
qed

text \<open>The search on \<open>demoBlock\<close> at difficulty 3 ends at nonce 2 with a sealed block.\<close>

theorem C1_mined_block_is_sealed_witness:
  "mineBlock demo (\<lambda>n. True) constructor demoBlock =
     Some (Some (sealed demo demoBlock 2), constructor\<lparr>currentNonce := 2\<rparr>) \<and>
   hash (sealed demo demoBlock 2) = Some (''000b'' @ concat (replicate 30 ''ab'')) \<and>
   nonce (sealed demo demoBlock 2) = 2 \<and>
   take 3 (''000b'' @ concat (replicate 30 ''ab'')) = ''000''"
proof -
  have c: "calculateHash demo (sealed demo demoBlock 2) = ''000b'' @ concat (replicate 30 ''ab'')"
    by (simp add: sealed_def demo_hash)
  have d: "difficulty constructor = 3" by (simp add: constructor_def)
  from C1_mined_block_is_sealed[OF demo_mine] c d demo_mine show ?thesis
    by (simp add: sealed_def)
qed

section \<open>Settlement\<close>

lemma map_fst_adjust [simp]: "map fst (adjust k f ws) = map fst ws"
  by (induct ws) auto

lemma map_of_adjust:
  "map_of (adjust k f ws) j =
     (if j = k then map_option (\<lambda>w. w\<lparr>balance := f (balance w)\<rparr>) (map_of ws k) else map_of ws j)"
  by (induct ws) auto

lemma adjust_absent: "map_of ws k = None \<Longrightarrow> adjust k f ws = ws"
  by (induct ws) (auto split: if_splits)

lemma adjust_adjust: "adjust k g (adjust k f ws) = adjust k (\<lambda>b. g (f b)) ws"
  by (induct ws) auto

lemma adjust_id: "(\<And>b. f b = b) \<Longrightarrow> adjust k f ws = ws"
  by (induct ws) auto


lemma getTo_Some: "getTo ws t = Some (k, w) \<longleftrightarrow> t = Some k \<and> map_of ws k = Some w"
  by (auto simp: getTo_def split: option.splits)


lemma map_fst_processTransaction [simp]: "map fst (processTransaction ws tx) = map fst ws"
  by (simp add: processTransaction_def split: option.splits prod.splits)




lemma processTransactions_Nil [simp]: "processTransactions ws [] = ws"
  by (simp add: processTransactions_def)

lemma processTransactions_Cons [simp]:
  "processTransactions ws (tx # txs) = processTransactions (processTransaction ws tx) txs"
  by (simp add: processTransactions_def)

section \<open>Invariant of the reachable states\<close>



lemma set_adjust:
  "e \<in> set (adjust k f ws) \<Longrightarrow>
     e \<in> set ws \<or> (\<exists>w. map_of ws k = Some w \<and> e = (k, w\<lparr>balance := f (balance w)\<rparr>))"
  by (induct ws) (auto split: if_splits)

lemma nonneg_adjust:
  assumes "nonneg ws" and "\<And>w. map_of ws k = Some w \<Longrightarrow> 0 \<le> f (balance w)"
  shows "nonneg (adjust k f ws)"
  unfolding nonneg_def
proof
  fix e assume "e \<in> set (adjust k f ws)"
  from set_adjust[OF this] show "0 \<le> balance (snd e)"
  proof
    assume "e \<in> set ws"
    with assms(1) show ?thesis by (simp add: nonneg_def)
  next
    assume "\<exists>w. map_of ws k = Some w \<and> e = (k, w\<lparr>balance := f (balance w)\<rparr>)"
    then obtain w where "map_of ws k = Some w" "e = (k, w\<lparr>balance := f (balance w)\<rparr>)" by blast
    with assms(2) show ?thesis by simp
  qed
qed

lemma nonneg_map_of: "nonneg ws \<Longrightarrow> map_of ws k = Some w \<Longrightarrow> 0 \<le> balance w"
  by (auto simp: nonneg_def dest!: map_of_SomeD)



lemma map_fst_processTransactions [simp]: "map fst (processTransactions ws txs) = map fst ws"
  by (induct txs arbitrary: ws) auto

lemma same_keys:
  assumes "map fst ws' = map fst ws" and "\<forall>e \<in> set ws. P (fst e)"
  shows "\<forall>e \<in> set ws'. P (fst e)"
proof
  fix e assume "e \<in> set ws'"
  then have "fst e \<in> set (map fst ws')" by simp
  then have "fst e \<in> set (map fst ws)" by (simp only: assms(1))
  then obtain e' where "e' \<in> set ws" "fst e' = fst e" by auto
  with assms(2) show "P (fst e)" by auto
qed

lemma set_Map_set: "set (Map_set k v ws) \<subseteq> insert (k, v) (set ws)"
  by (induct ws) (auto split: if_splits)

lemma take4_generateAddress [simp]: "take 4 (generateAddress pf r) = ''bc1q''"
  by (simp add: generateAddress_def)









section \<open>Totals\<close>




section \<open>Outcomes of block production\<close>

lemma addBlock_appended:
  assumes "addBlock pf ev s = Some (Some b, s')"
  shows "blockchain s \<noteq> [] \<and> isMiningAfter ev \<and>
         hit pf (repeat (CHR ''0'') (difficulty s)) (newBlock ev s) (currentNonce s') \<and>
         b = sealed pf (newBlock ev s) (currentNonce s') \<and>
         s' = s\<lparr>blockchain := blockchain s @ [b],
                transactionPool := drop 10 (transactionPool s),
                wallets := processTransactions (wallets s) (transactions (newBlock ev s)),
                currentNonce := currentNonce s',
                blocksMined := blocksMined s + 1\<rparr>"
proof -
  have ne: "length (blockchain s) \<noteq> 0"
    using assms by (auto simp: addBlock_def)
  let ?s1 = "s\<lparr>transactionPool := drop 10 (transactionPool s)\<rparr>"
  from ne assms obtain r1 s1 where
    m: "mineBlock pf (isMiningAt ev) ?s1 (newBlock ev s) = Some (r1, s1)"
    by (auto simp: addBlock_def split: option.splits)
  from ne assms m have r1: "r1 = Some b" and after: "isMiningAfter ev"
    by (cases r1; auto simp: addBlock_def split: if_splits)+
  from ne assms m r1 after have s': "s' = s1\<lparr>blockchain := blockchain s1 @ [b],
      blocksMined := blocksMined s1 + 1,
      wallets := processTransactions (wallets s1) (transactions (newBlock ev s))\<rparr>"
    by (simp add: addBlock_def)
  from mineBlock_result[OF m] r1
  have s1: "s1 = ?s1\<lparr>currentNonce := currentNonce s1\<rparr>"
    and h: "hit pf (repeat (CHR ''0'') (difficulty s)) (newBlock ev s) (currentNonce s1)"
    and b: "b = sealed pf (newBlock ev s) (currentNonce s1)"
    by simp_all
  have c: "currentNonce s' = currentNonce s1" by (simp add: s')
  have "s' = s\<lparr>blockchain := blockchain s @ [b],
                transactionPool := drop 10 (transactionPool s),
                wallets := processTransactions (wallets s) (transactions (newBlock ev s)),
                currentNonce := currentNonce s',
                blocksMined := blocksMined s + 1\<rparr>"
    by (subst s', subst (1 2 3 4) s1) (simp add: c)
  with ne after h b c show ?thesis by simp
qed

lemma addBlock_discarded:
  assumes "blockchain s \<noteq> []" and "addBlock pf ev s = Some (None, s')"
  shows "s' = s\<lparr>transactionPool := drop 10 (transactionPool s), currentNonce := currentNonce s'\<rparr>"
proof -
  let ?s1 = "s\<lparr>transactionPool := drop 10 (transactionPool s)\<rparr>"
  from assms obtain r1 s1 where
    m: "mineBlock pf (isMiningAt ev) ?s1 (newBlock ev s) = Some (r1, s1)"
    by (auto simp: addBlock_def split: option.splits)
  from assms m have "s' = s1"
    by (cases r1) (auto simp: addBlock_def split: if_splits)
  with mineBlock_result[OF m] show ?thesis by simp
qed

section \<open>Pooled senders and appended blocks\<close>


lemma addBlock_appended_fields:
  assumes "addBlock pf ev s = Some (Some b, s')"
  shows "blockchain s' = blockchain s @ [b]"
    and "transactionPool s' = drop 10 (transactionPool s)"
    and "wallets s' = processTransactions (wallets s) (transactions (newBlock ev s))"
    and "blocksMined s' = blocksMined s + 1"
    and "difficulty s' = difficulty s"
    and "miningReward s' = miningReward s"
proof -
  from addBlock_appended[OF assms]
  have eq: "s' = s\<lparr>blockchain := blockchain s @ [b],
                transactionPool := drop 10 (transactionPool s),
                wallets := processTransactions (wallets s) (transactions (newBlock ev s)),
                currentNonce := currentNonce s',
                blocksMined := blocksMined s + 1\<rparr>"
    by blast
  show "blockchain s' = blockchain s @ [b]"
    using arg_cong[OF eq, of blockchain] by simp
  show "transactionPool s' = drop 10 (transactionPool s)"
    using arg_cong[OF eq, of transactionPool] by simp
  show "wallets s' = processTransactions (wallets s) (transactions (newBlock ev s))"
    using arg_cong[OF eq, of wallets] by simp
  show "blocksMined s' = blocksMined s + 1"
    using arg_cong[OF eq, of blocksMined] by simp
  show "difficulty s' = difficulty s"
    using arg_cong[OF eq, of difficulty] by simp
  show "miningReward s' = miningReward s"
    using arg_cong[OF eq, of miningReward] by simp
qed

section \<open>Worked example: evaluation\<close>

lemma toString_nonempty [simp]: "toString r n \<noteq> []"
  by (subst toString.simps) simp

lemma hex_demoDigest:
  "hex (demoDigest bytes) =
     (if bytes \<noteq> [] \<and> last bytes = CHR ''2'' then ''00'' else ''5a'') @
     (if bytes = ''A'' then ''0a'' else ''0b'') @ concat (replicate 30 ''ab'')"
  by (simp add: hex_def demoDigest_def padStart_def digits_def toString.simps)

lemma serialize_not_A: "serialize pf b \<noteq> ''A''"
proof
  assume "serialize pf b = ''A''"
  then have "length (serialize pf b) = 1" by simp
  moreover have "0 < length (toString 10 (index b))" "0 < length (toString 10 (timestamp b))"
    by simp_all
  ultimately show False by (simp add: serialize_def)
qed

lemma demo_calculateHash:
  "calculateHash demo b =
     (if last (toString 10 (nonce b)) = CHR ''2'' then ''000b'' else ''5a0b'') @
     concat (replicate 30 ''ab'')"
proof -
  have l: "last (serialize demo b) = last (toString 10 (nonce b))"
    by (simp add: serialize_def)
  have n: "serialize demo b \<noteq> []" by (simp add: serialize_def)
  have "calculateHash demo b = hex (demoDigest (serialize demo b))"
    by (simp add: calculateHash_def demo_def)
  then show ?thesis
    by (simp add: hex_demoDigest l n serialize_not_A)
qed

lemma demo_hit: "hit demo ''000'' b m \<longleftrightarrow> last (toString 10 m) = CHR ''2''"
  by (simp add: hit_def demo_calculateHash startsWith_def)

lemma demo_sealed_hash: "hash (sealed demo b 2) = Some (''000b'' @ concat (replicate 30 ''ab''))"
  by (simp add: sealed_def demo_calculateHash toString.simps digits_def)

lemma demo_mineLoop:
  "mineLoop demo (\<lambda>n. True) ''000'' b 0 = Some (Some (sealed demo b 2), 2)"
proof -
  have a: "\<forall>m. 0 \<le> m \<and> m < 0 + 2 \<longrightarrow> True \<and> \<not> hit demo ''000'' b m"
  proof (intro allI impI)
    fix m :: nat assume "0 \<le> m \<and> m < 0 + 2"
    then have "m = 0 \<or> m = 1" by arith
    then show "True \<and> \<not> hit demo ''000'' b m"
      by (auto simp: demo_hit toString.simps digits_def)
  qed
  have h: "hit demo ''000'' b (0 + 2)"
    by (simp add: demo_hit toString.simps digits_def)
  have "mineLoop demo (\<lambda>n. True) ''000'' b 0 = Some (Some (sealed demo b (0 + 2)), 0 + 2)"
    by (rule mineLoop_finds_from[OF a _ h]) simp
  then show ?thesis by (simp only: add_0)
qed

lemma demo_mineBlock:
  "difficulty s = 3 \<Longrightarrow>
     mineBlock demo (\<lambda>n. True) s b = Some (Some (sealed demo b 2), s\<lparr>currentNonce := 2\<rparr>)"
  by (simp add: mineBlock_def repeat_def numeral_3_eq_3 demo_mineLoop)

lemma demo_addBlock:
  assumes "blockchain s \<noteq> []" and "difficulty s = 3"
  shows "addBlock demo demoEnv s =
     Some (Some (sealed demo (newBlock demoEnv s) 2),
           s\<lparr>blockchain := blockchain s @ [sealed demo (newBlock demoEnv s) 2],
             transactionPool := drop 10 (transactionPool s),
             wallets := processTransactions (wallets s) (transactions (newBlock demoEnv s)),
             currentNonce := 2,
             blocksMined := blocksMined s + 1\<rparr>)"
proof -
  have e: "isMiningAt demoEnv = (\<lambda>n. True)" "isMiningAfter demoEnv"
    by (simp_all add: demoEnv_def)
  have "mineBlock demo (\<lambda>n. True) (s\<lparr>transactionPool := drop 10 (transactionPool s)\<rparr>)
          (newBlock demoEnv s) =
        Some (Some (sealed demo (newBlock demoEnv s) 2),
              s\<lparr>transactionPool := drop 10 (transactionPool s), currentNonce := 2\<rparr>)"
    using assms(2) by (simp add: demo_mineBlock)
  with assms(1) e show ?thesis by (simp add: addBlock_def)
qed

lemma addr_distinct: "addrA \<noteq> addrB"
  by (simp add: addrA_def addrB_def generateAddress_def demo_def hex_demoDigest)

lemma addrA_not_System: "addrA \<noteq> ''System''"
  by (simp add: addrA_def generateAddress_def)

lemma demo2_wallets:
  "wallets demo2 = [(addrA, Wallet addrA ''Alice'' 100 1), (addrB, Wallet addrB ''Bob'' 0 2)]"
  using addr_distinct
  by (simp add: demo2_def demo1_def createWallet_def constructor_def addrA_def addrB_def Let_def)

lemma demo3_fields:
  "wallets demo3 = wallets demo2" "transactionPool demo3 = []" "difficulty demo3 = 3"
  "miningReward demo3 = 10" "blocksMined demo3 = 0" "length (blockchain demo3) = 1"
  by (simp_all add: demo3_def createGenesisBlock_def demo2_def demo1_def createWallet_def
        constructor_def Let_def)

lemma demo4_eq: "demo4 = demo3\<lparr>transactionPool := [demoTx]\<rparr>"
  using addr_distinct
  by (simp add: demo4_def addTransaction_def demo3_fields demo2_wallets Wallet_def demoTx_def)

lemma demo4_fields:
  "wallets demo4 = wallets demo2" "transactionPool demo4 = [demoTx]" "difficulty demo4 = 3"
  "miningReward demo4 = 10" "blockchain demo4 = blockchain demo3" "blocksMined demo4 = 0"
  by (simp_all add: demo4_eq demo3_fields)

lemma demo4_addBlock: "addBlock demo demoEnv demo4 = Some (Some demoMined, demo5)"
proof -
  have "blockchain demo4 \<noteq> []"
    using demo3_fields(6) by (simp add: demo4_fields(5) length_0_conv[symmetric] del: length_0_conv)
  from demo_addBlock[OF this demo4_fields(3)] show ?thesis
    by (simp add: demoMined_def demo5_def)
qed

lemma demo_batch:
  "transactions (newBlock demoEnv demo4) =
     [Transaction ''tx_r'' 5 ''System'' (Some addrA) 10, demoTx]"
  by (simp add: newBlock_def Block_def rewardTransaction_def minerAddress_def demo4_fields
        demo2_wallets demoEnv_def)


lemma reachable_demo2: "reachable demo demo2"
  unfolding demo2_def demo1_def
  by (intro reachable.wallet reachable.start) simp_all

lemma reachable_demo4: "reachable demo demo4"
  unfolding demo4_def demo3_def
  by (intro reachable.submit reachable.genesis reachable_demo2)

lemma reachable_demo5: "reachable demo demo5"
  by (rule reachable.produce[OF reachable_demo4 demo4_addBlock])

section \<open>Worked example: the claims at concrete inputs\<close>


section \<open>Block production\<close>

lemma mineBlock_finds:
  assumes "\<forall>m. m < k \<longrightarrow> mining m \<and> \<not> hit pf (repeat (CHR ''0'') (difficulty s)) b m"
    and "mining k" and "hit pf (repeat (CHR ''0'') (difficulty s)) b k"
  shows "mineBlock pf mining s b = Some (Some (sealed pf b k), s\<lparr>currentNonce := k\<rparr>)"
proof -
  have "mineLoop pf mining (repeat (CHR ''0'') (difficulty s)) b 0 =
          Some (Some (sealed pf b (0 + k)), 0 + k)"
    by (rule mineLoop_finds_from) (use assms in simp_all)
  then show ?thesis by (simp add: mineBlock_def)
qed

lemma mineBlock_stops:
  assumes "\<forall>m. m < k \<longrightarrow> mining m \<and> \<not> hit pf (repeat (CHR ''0'') (difficulty s)) b m"
    and "\<not> mining k"
  shows "mineBlock pf mining s b = Some (None, s\<lparr>currentNonce := k\<rparr>)"
proof -
  have "mineLoop pf mining (repeat (CHR ''0'') (difficulty s)) b 0 = Some (None, 0 + k)"
    by (rule mineLoop_stops_from) (use assms in simp_all)
  then show ?thesis by (simp add: mineBlock_def)
qed

lemma addBlock_produces:
  assumes "blockchain s \<noteq> []"
    and "\<forall>m. m < k \<longrightarrow> isMiningAt ev m \<and> \<not> hit pf (repeat (CHR ''0'') (difficulty s)) (newBlock ev s) m"
    and "isMiningAt ev k" and "hit pf (repeat (CHR ''0'') (difficulty s)) (newBlock ev s) k"
    and "isMiningAfter ev"
  shows "addBlock pf ev s =
     Some (Some (sealed pf (newBlock ev s) k),
           s\<lparr>blockchain := blockchain s @ [sealed pf (newBlock ev s) k],
             transactionPool := drop 10 (transactionPool s),
             wallets := processTransactions (wallets s) (transactions (newBlock ev s)),
             currentNonce := k,
             blocksMined := blocksMined s + 1\<rparr>)"
proof -
  have "mineBlock pf (isMiningAt ev) (s\<lparr>transactionPool := drop 10 (transactionPool s)\<rparr>)
          (newBlock ev s) =
        Some (Some (sealed pf (newBlock ev s) k),
              s\<lparr>transactionPool := drop 10 (transactionPool s), currentNonce := k\<rparr>)"
    by (rule mineBlock_finds[where s = "s\<lparr>transactionPool := drop 10 (transactionPool s)\<rparr>", simplified])
       (use assms in simp_all)
  with assms(1,5) show ?thesis by (simp add: addBlock_def)
qed

lemma addBlock_stopped:
  assumes "blockchain s \<noteq> []"
    and "\<forall>m. m < k \<longrightarrow> isMiningAt ev m \<and> \<not> hit pf (repeat (CHR ''0'') (difficulty s)) (newBlock ev s) m"
    and "\<not> isMiningAt ev k"
  shows "addBlock pf ev s =
     Some (None, s\<lparr>transactionPool := drop 10 (transactionPool s), currentNonce := k\<rparr>)"
proof -
  have "mineBlock pf (isMiningAt ev) (s\<lparr>transactionPool := drop 10 (transactionPool s)\<rparr>)
          (newBlock ev s) =
        Some (None, s\<lparr>transactionPool := drop 10 (transactionPool s), currentNonce := k\<rparr>)"
    by (rule mineBlock_stops[where s = "s\<lparr>transactionPool := drop 10 (transactionPool s)\<rparr>", simplified])
       (use assms in simp_all)
  with assms(1) show ?thesis by (simp add: addBlock_def)
qed

lemma addBlock_pool:
  assumes "blockchain s \<noteq> []" and "addBlock pf ev s = Some (r, s')"
  shows "transactionPool s' = drop 10 (transactionPool s)"
proof (cases r)
  case None
  with assms have "s' = s\<lparr>transactionPool := drop 10 (transactionPool s), currentNonce := currentNonce s'\<rparr>"
    by (simp add: addBlock_discarded)
  from arg_cong[OF this, of transactionPool] show ?thesis by simp
next
  case (Some b)
  with assms(2) show ?thesis by (simp add: addBlock_appended_fields)
qed

text \<open>
  C5. On a non-empty chain \<open>addBlock\<close> builds a block with the next index and the last
  block's hash as previous hash. Its batch is the reward transaction (from \<open>System\<close>, to
  the first key of the wallet map, amount \<open>miningReward\<close>, 10 from the constructor on)
  followed by the first ten transactions of the pool in their order, or by all of them
  when there are fewer; these leave the pool. When the flag stays on until a nonce seals
  the block, that block is appended and returned.
\<close>

theorem C5_block_production:
  assumes "blockchain s \<noteq> []"
  shows "index (newBlock ev s) = index (last (blockchain s)) + 1 \<and>
         previousHash (newBlock ev s) = hash (last (blockchain s)) \<and>
         nonce (newBlock ev s) = 0 \<and> hash (newBlock ev s) = None \<and>
         transactions (newBlock ev s) = rewardTransaction ev s # take 10 (transactionPool s) \<and>
         tx_from (rewardTransaction ev s) = ''System'' \<and>
         amount (rewardTransaction ev s) = miningReward s \<and> miningReward constructor = 10 \<and>
         (\<forall>a w rest. wallets s = (a, w) # rest \<longrightarrow> tx_to (rewardTransaction ev s) = Some a) \<and>
         take 10 (transactionPool s) @ drop 10 (transactionPool s) = transactionPool s \<and>
         length (take 10 (transactionPool s)) = min 10 (length (transactionPool s)) \<and>
         (length (transactionPool s) \<le> 10 \<longrightarrow>
            take 10 (transactionPool s) = transactionPool s \<and> drop 10 (transactionPool s) = []) \<and>
         (\<forall>r s'. addBlock pf ev s = Some (r, s') \<longrightarrow>
            transactionPool s' = drop 10 (transactionPool s) \<and>
            (\<forall>b. r = Some b \<longrightarrow>
               blockchain s' = blockchain s @ [b] \<and>
               index b = index (last (blockchain s)) + 1 \<and>
               previousHash b = hash (last (blockchain s)) \<and>
               transactions b = rewardTransaction ev s # take 10 (transactionPool s))) \<and>
         (\<forall>k. (\<forall>m. m < k \<longrightarrow> isMiningAt ev m \<and>
                  \<not> hit pf (repeat (CHR ''0'') (difficulty s)) (newBlock ev s) m) \<and>
              isMiningAt ev k \<and> hit pf (repeat (CHR ''0'') (difficulty s)) (newBlock ev s) k \<and>
              isMiningAfter ev \<longrightarrow>
              (\<exists>s'. addBlock pf ev s = Some (Some (sealed pf (newBlock ev s) k), s')))"
proof -
  have nb: "index (newBlock ev s) = index (last (blockchain s)) + 1"
    "previousHash (newBlock ev s) = hash (last (blockchain s))"
    "nonce (newBlock ev s) = 0" "hash (newBlock ev s) = None"
    "transactions (newBlock ev s) = rewardTransaction ev s # take 10 (transactionPool s)"
    using assms by (simp_all add: newBlock_def Block_def last_conv_nth)
  have rw: "tx_from (rewardTransaction ev s) = ''System''"
    "amount (rewardTransaction ev s) = miningReward s" "miningReward constructor = 10"
    "\<forall>a w rest. wallets s = (a, w) # rest \<longrightarrow> tx_to (rewardTransaction ev s) = Some a"
    by (simp_all add: rewardTransaction_def Transaction_def minerAddress_def constructor_def)
  have pool: "take 10 (transactionPool s) @ drop 10 (transactionPool s) = transactionPool s"
    "length (take 10 (transactionPool s)) = min 10 (length (transactionPool s))"
    "length (transactionPool s) \<le> 10 \<longrightarrow>
       take 10 (transactionPool s) = transactionPool s \<and> drop 10 (transactionPool s) = []"
    by (simp_all add: min.commute)
  have res: "\<forall>r s'. addBlock pf ev s = Some (r, s') \<longrightarrow>
            transactionPool s' = drop 10 (transactionPool s) \<and>
            (\<forall>b. r = Some b \<longrightarrow>
               blockchain s' = blockchain s @ [b] \<and>
               index b = index (last (blockchain s)) + 1 \<and>
               previousHash b = hash (last (blockchain s)) \<and>
               transactions b = rewardTransaction ev s # take 10 (transactionPool s))"
  proof (intro allI impI conjI)
    fix r s' assume a: "addBlock pf ev s = Some (r, s')"
    show "transactionPool s' = drop 10 (transactionPool s)"
      by (rule addBlock_pool[OF assms a])
    fix b assume "r = Some b"
    with a have ab: "addBlock pf ev s = Some (Some b, s')" by simp
    show "blockchain s' = blockchain s @ [b]"
      by (rule addBlock_appended_fields(1)[OF ab])
    from addBlock_appended[OF ab] have b: "b = sealed pf (newBlock ev s) (currentNonce s')"
      by blast
    show "index b = index (last (blockchain s)) + 1"
      by (subst b) (simp add: sealed_def nb)
    show "previousHash b = hash (last (blockchain s))"
      by (subst b) (simp add: sealed_def nb)
    show "transactions b = rewardTransaction ev s # take 10 (transactionPool s)"
      by (subst b) (simp add: sealed_def nb)
  qed
  have tot: "\<forall>k. (\<forall>m. m < k \<longrightarrow> isMiningAt ev m \<and>
                  \<not> hit pf (repeat (CHR ''0'') (difficulty s)) (newBlock ev s) m) \<and>
              isMiningAt ev k \<and> hit pf (repeat (CHR ''0'') (difficulty s)) (newBlock ev s) k \<and>
              isMiningAfter ev \<longrightarrow>
              (\<exists>s'. addBlock pf ev s = Some (Some (sealed pf (newBlock ev s) k), s'))"
    using addBlock_produces[OF assms] by blast
  from nb rw pool res tot show ?thesis by blast
qed

text \<open>
  C8. On a non-empty chain, when the flag is found off before any nonce has sealed the
  candidate, \<open>addBlock\<close> returns nothing: the chain, every wallet and the count of mined
  blocks are as before, and the pool has lost its first ten transactions. The same holds
  whenever \<open>addBlock\<close> returns without a block.
\<close>

theorem C8_cancelled_mining:
  assumes "blockchain s \<noteq> []"
  shows "(\<forall>k. (\<forall>m. m < k \<longrightarrow> isMiningAt ev m \<and>
                  \<not> hit pf (repeat (CHR ''0'') (difficulty s)) (newBlock ev s) m) \<and>
              \<not> isMiningAt ev k \<longrightarrow>
              addBlock pf ev s =
                Some (None, s\<lparr>transactionPool := drop 10 (transactionPool s), currentNonce := k\<rparr>)) \<and>
         (\<forall>s'. addBlock pf ev s = Some (None, s') \<longrightarrow>
              blockchain s' = blockchain s \<and> wallets s' = wallets s \<and>
              blocksMined s' = blocksMined s \<and>
              transactionPool s' = drop 10 (transactionPool s))"
proof (intro conjI allI impI)
  fix k
  assume "(\<forall>m. m < k \<longrightarrow> isMiningAt ev m \<and>
             \<not> hit pf (repeat (CHR ''0'') (difficulty s)) (newBlock ev s) m) \<and> \<not> isMiningAt ev k"
  then show "addBlock pf ev s =
      Some (None, s\<lparr>transactionPool := drop 10 (transactionPool s), currentNonce := k\<rparr>)"
    by (intro addBlock_stopped[OF assms]) simp_all
next
  fix s' assume "addBlock pf ev s = Some (None, s')"
  from addBlock_discarded[OF assms this]
  have eq: "s' = s\<lparr>transactionPool := drop 10 (transactionPool s), currentNonce := currentNonce s'\<rparr>" .
  show "blockchain s' = blockchain s" using arg_cong[OF eq, of blockchain] by simp
  show "wallets s' = wallets s" using arg_cong[OF eq, of wallets] by simp
  show "blocksMined s' = blocksMined s" using arg_cong[OF eq, of blocksMined] by simp
  show "transactionPool s' = drop 10 (transactionPool s)"
    using arg_cong[OF eq, of transactionPool] by simp
qed

lemma length_toString16:
  assumes "n < 256"
  shows "length (padStart 2 c (toString 16 n)) = 2"
proof (cases "n < 16")
  case True
  then show ?thesis by (subst toString.simps) (simp add: padStart_def)
next
  case False
  with assms have "n div 16 < 16" by simp
  then have "toString 16 (n div 16) = [digits ! (n div 16)]"
    by (subst toString.simps) simp
  with False show ?thesis by (subst toString.simps) (simp add: padStart_def)
qed

lemma length_hex: "length (hex bs) = 2 * length bs"
proof (induct bs)
  case Nil
  show ?case by (simp add: hex_def)
next
  case (Cons b bs)
  have "unat b < 2 ^ LENGTH(8)" by (rule unsigned_less)
  then have "unat b < 256" by simp
  from length_toString16[OF this] Cons show ?case by (simp add: hex_def)
qed

lemma startsWith_length: "startsWith h t \<Longrightarrow> length t \<le> length h"
proof -
  assume "startsWith h t"
  then have "length (take (length t) h) = length t" by (simp add: startsWith_def)
  then show ?thesis by simp
qed

text \<open>
  C6, amended. On an empty chain \<open>addBlock\<close> appends the genesis block and returns
  nothing. That block has index 0, previous hash \<open>0\<close>, no transactions and nonce 0, and
  its hash is the digest of its own serialization at nonce 0: no nonce is searched, the
  difficulty plays no part, and the hash need not start with any zero. It cannot have the
  prefix when the difficulty exceeds the number of hexadecimal digits of a digest (64 for
  SHA-256).
\<close>

theorem C6_genesis_block:
  assumes "blockchain s = []"
  shows "addBlock pf ev s = Some (None, createGenesisBlock pf (blockTime ev) s) \<and>
         createGenesisBlock pf (blockTime ev) s =
           s\<lparr>blockchain := [last (blockchain (createGenesisBlock pf (blockTime ev) s))]\<rparr> \<and>
         index (last (blockchain (createGenesisBlock pf (blockTime ev) s))) = 0 \<and>
         previousHash (last (blockchain (createGenesisBlock pf (blockTime ev) s))) = Some ''0'' \<and>
         transactions (last (blockchain (createGenesisBlock pf (blockTime ev) s))) = [] \<and>
         nonce (last (blockchain (createGenesisBlock pf (blockTime ev) s))) = 0 \<and>
         hash (last (blockchain (createGenesisBlock pf (blockTime ev) s))) =
           Some (calculateHash pf (last (blockchain (createGenesisBlock pf (blockTime ev) s)))) \<and>
         calculateHash pf (last (blockchain (createGenesisBlock pf (blockTime ev) s))) =
           hex (sha256 pf (''0'' @ toString 10 (blockTime ev) @ stringify pf [] @ ''0'' @ ''0'')) \<and>
         (2 * length (sha256 pf (''0'' @ toString 10 (blockTime ev) @ stringify pf [] @ ''0'' @ ''0''))
            < difficulty s \<longrightarrow>
          \<not> startsWith (calculateHash pf (last (blockchain (createGenesisBlock pf (blockTime ev) s))))
               (repeat (CHR ''0'') (difficulty s)))"
proof -
  let ?g = "last (blockchain (createGenesisBlock pf (blockTime ev) s))"
  let ?d = "sha256 pf (''0'' @ toString 10 (blockTime ev) @ stringify pf [] @ ''0'' @ ''0'')"
  have c: "calculateHash pf ?g = hex ?d"
    by (simp add: createGenesisBlock_def Block_def calculateHash_def serialize_def
          template_def toString.simps[of 10 0] digits_def)
  have "\<not> startsWith (calculateHash pf ?g) (repeat (CHR ''0'') (difficulty s))"
    if "2 * length ?d < difficulty s"
  proof
    assume "startsWith (calculateHash pf ?g) (repeat (CHR ''0'') (difficulty s))"
    from startsWith_length[OF this] have "difficulty s \<le> 2 * length ?d"
      by (simp add: c length_hex repeat_def)
    with that show False by simp
  qed
  moreover have "addBlock pf ev s = Some (None, createGenesisBlock pf (blockTime ev) s)"
    using assms by (simp add: addBlock_def)
  moreover have "createGenesisBlock pf (blockTime ev) s = s\<lparr>blockchain := [?g]\<rparr>"
    "index ?g = 0" "previousHash ?g = Some ''0''" "transactions ?g = []" "nonce ?g = 0"
    "hash ?g = Some (calculateHash pf ?g)"
    using assms by (simp_all add: createGenesisBlock_def Block_def calculateHash_def serialize_def)
  ultimately show ?thesis using c by blast
qed

text \<open>The genesis block made by \<open>addBlock\<close> on the constructor's state.\<close>

theorem C6_genesis_block_witness:
  "blockchain constructor = [] \<and>
   addBlock demo demoEnv constructor = Some (None, createGenesisBlock demo 5 constructor) \<and>
   index (last (blockchain (createGenesisBlock demo 5 constructor))) = 0 \<and>
   previousHash (last (blockchain (createGenesisBlock demo 5 constructor))) = Some ''0'' \<and>
   transactions (last (blockchain (createGenesisBlock demo 5 constructor))) = [] \<and>
   hash (last (blockchain (createGenesisBlock demo 5 constructor))) =
     Some (''5a0b'' @ concat (replicate 30 ''ab''))"
proof -
  have e: "blockchain constructor = []" by (simp add: constructor_def)
  have t: "blockTime demoEnv = 5" by (simp add: demoEnv_def)
  from C6_genesis_block[OF e, of demo demoEnv] e show ?thesis
    by (simp add: t demo_calculateHash toString.simps[of 10 0] digits_def)
qed

text \<open>
  The claim as first stated has the genesis hash meet the difficulty. At the default
  difficulty 3 the genesis block of the example has a hash that starts with \<open>5a\<close>.
\<close>

theorem C6_genesis_block_counterexample:
  "blockchain constructor = [] \<and>
   addBlock demo demoEnv constructor = Some (None, createGenesisBlock demo 5 constructor) \<and>
   difficulty (createGenesisBlock demo 5 constructor) = 3 \<and>
   map hash (blockchain (createGenesisBlock demo 5 constructor)) =
     [Some (''5a0b'' @ concat (replicate 30 ''ab''))] \<and>
   \<not> startsWith (''5a0b'' @ concat (replicate 30 ''ab'')) (repeat (CHR ''0'') 3)"
  by (simp add: addBlock_def constructor_def createGenesisBlock_def demoEnv_def Block_def
        demo_calculateHash toString.simps[of 10 0] digits_def startsWith_def repeat_def
        numeral_3_eq_3)

text \<open>The block of the run: index 1, the reward for Alice first, then her transfer.\<close>

theorem C5_block_production_witness:
  "blockchain demo4 \<noteq> [] \<and> wallets demo4 = (addrA, Wallet addrA ''Alice'' 100 1) # tl (wallets demo4) \<and>
   length (transactionPool demo4) \<le> 10 \<and>
   isMiningAfter demoEnv \<and> isMiningAt demoEnv 2 \<and>
   hit demo (repeat (CHR ''0'') (difficulty demo4)) (newBlock demoEnv demo4) 2 \<and>
   addBlock demo demoEnv demo4 = Some (Some demoMined, demo5) \<and>
   blockchain demo5 = blockchain demo4 @ [demoMined] \<and>
   index (last (blockchain demo4)) = 0 \<and> index demoMined = 1 \<and>
   previousHash demoMined = hash (last (blockchain demo4)) \<and>
   transactions demoMined = [Transaction ''tx_r'' 5 ''System'' (Some addrA) 10, demoTx] \<and>
   transactionPool demo4 = [demoTx] \<and> transactionPool demo5 = []"
proof -
  have ne: "blockchain demo4 \<noteq> []"
    using demo3_fields(6) by (simp add: demo4_fields(5) length_0_conv[symmetric] del: length_0_conv)
  have i: "index (last (blockchain demo4)) = 0"
    by (simp add: demo4_fields demo3_def createGenesisBlock_def Block_def demo2_def demo1_def
          createWallet_def constructor_def Let_def)
  have h: "hit demo (repeat (CHR ''0'') (difficulty demo4)) (newBlock demoEnv demo4) 2"
    by (simp add: demo4_fields repeat_def numeral_3_eq_3 demo_hit toString.simps digits_def)
  have r: "rewardTransaction demoEnv demo4 = Transaction ''tx_r'' 5 ''System'' (Some addrA) 10"
    using demo_batch by (simp add: newBlock_def Block_def)
  note c = C5_block_production[OF ne, of demoEnv demo]
  from c have "\<forall>r s'. addBlock demo demoEnv demo4 = Some (r, s') \<longrightarrow>
            transactionPool s' = drop 10 (transactionPool demo4) \<and>
            (\<forall>b. r = Some b \<longrightarrow>
               blockchain s' = blockchain demo4 @ [b] \<and>
               index b = index (last (blockchain demo4)) + 1 \<and>
               previousHash b = hash (last (blockchain demo4)) \<and>
               transactions b = rewardTransaction demoEnv demo4 # take 10 (transactionPool demo4))"
    by (elim conjE)
  with demo4_addBlock have d: "transactionPool demo5 = drop 10 (transactionPool demo4)"
    "blockchain demo5 = blockchain demo4 @ [demoMined]"
    "index demoMined = index (last (blockchain demo4)) + 1"
    "previousHash demoMined = hash (last (blockchain demo4))"
    "transactions demoMined = rewardTransaction demoEnv demo4 # take 10 (transactionPool demo4)"
    by blast+
  have e: "isMiningAfter demoEnv" "isMiningAt demoEnv 2" by (simp_all add: demoEnv_def)
  have w: "wallets demo4 = (addrA, Wallet addrA ''Alice'' 100 1) # tl (wallets demo4)"
    by (simp add: demo4_fields demo2_wallets)
  have pl: "length (transactionPool demo4) \<le> 10" "transactionPool demo4 = [demoTx]"
    by (simp_all add: demo4_fields)
  have "transactionPool demo5 = []" "index demoMined = 1"
    "transactions demoMined = [Transaction ''tx_r'' 5 ''System'' (Some addrA) 10, demoTx]"
    by (simp_all add: d i r pl)
  with ne w pl e h demo4_addBlock d(2,4) i show ?thesis by blast
qed

text \<open>
  The flag goes off after one failed attempt: nothing is appended, and Alice's pooled
  transfer is gone.
\<close>

theorem C8_cancelled_mining_witness:
  "blockchain demo4 \<noteq> [] \<and> isMiningAt stopEnv 0 \<and> \<not> isMiningAt stopEnv 1 \<and>
   \<not> hit demo (repeat (CHR ''0'') (difficulty demo4)) (newBlock stopEnv demo4) 0 \<and>
   addBlock demo stopEnv demo4 = Some (None, demo4\<lparr>transactionPool := [], currentNonce := 1\<rparr>) \<and>
   transactionPool demo4 = [demoTx] \<and>
   blockchain (demo4\<lparr>transactionPool := [], currentNonce := 1\<rparr>) = blockchain demo4 \<and>
   wallets (demo4\<lparr>transactionPool := [], currentNonce := 1\<rparr>) = wallets demo4"
proof -
  have ne: "blockchain demo4 \<noteq> []"
    using demo3_fields(6) by (simp add: demo4_fields(5) length_0_conv[symmetric] del: length_0_conv)
  have f: "isMiningAt stopEnv 0" "\<not> isMiningAt stopEnv 1"
    by (simp_all add: stopEnv_def)
  have h: "\<not> hit demo (repeat (CHR ''0'') (difficulty demo4)) (newBlock stopEnv demo4) 0"
    by (simp add: demo4_fields repeat_def numeral_3_eq_3 demo_hit toString.simps digits_def)
  have p: "\<forall>m. m < 1 \<longrightarrow> isMiningAt stopEnv m \<and>
        \<not> hit demo (repeat (CHR ''0'') (difficulty demo4)) (newBlock stopEnv demo4) m"
    using f h by simp
  from C8_cancelled_mining[OF ne, of stopEnv demo]
  have "\<forall>k. (\<forall>m. m < k \<longrightarrow> isMiningAt stopEnv m \<and>
                  \<not> hit demo (repeat (CHR ''0'') (difficulty demo4)) (newBlock stopEnv demo4) m) \<and>
              \<not> isMiningAt stopEnv k \<longrightarrow>
              addBlock demo stopEnv demo4 =
                Some (None, demo4\<lparr>transactionPool := drop 10 (transactionPool demo4), currentNonce := k\<rparr>)"
    by (elim conjE)
  with p f(2) have "addBlock demo stopEnv demo4 =
      Some (None, demo4\<lparr>transactionPool := drop 10 (transactionPool demo4), currentNonce := 1\<rparr>)"
    by blast
  then have a: "addBlock demo stopEnv demo4 = Some (None, demo4\<lparr>transactionPool := [], currentNonce := 1\<rparr>)"
    by (simp add: demo4_fields)
  have "transactionPool demo4 = [demoTx]"
    "blockchain (demo4\<lparr>transactionPool := [], currentNonce := 1\<rparr>) = blockchain demo4"
    "wallets (demo4\<lparr>transactionPool := [], currentNonce := 1\<rparr>) = wallets demo4"
    by (simp_all add: demo4_fields)
  with ne f h a show ?thesis by blast
qed

section \<open>Chain validation\<close>

lemma validateLoop_True:
  "validateLoop s i = Inr True \<longleftrightarrow> (\<forall>j. i \<le> j \<and> j < length (blockchain s) \<longrightarrow> linked s j)"
proof (induct s i rule: validateLoop.induct)
  case (1 s i)
  show ?case
  proof (cases "i < length (blockchain s)")
    case False
    then show ?thesis by (subst validateLoop.simps) auto
  next
    case True
    note lt = this
    show ?thesis
    proof (cases "linked s i")
      case False
      then have "validateLoop s i \<noteq> Inr True"
        using lt by (subst validateLoop.simps) (auto simp: linked_def split: option.splits)
      moreover have "\<not> (\<forall>j. i \<le> j \<and> j < length (blockchain s) \<longrightarrow> linked s j)"
        using lt False by blast
      ultimately show ?thesis by simp
    next
      case True
      then obtain h where h: "hash (blockchain s ! i) = Some h"
        "startsWith h (repeat (CHR ''0'') (difficulty s))"
        "previousHash (blockchain s ! i) = hash (blockchain s ! (i - 1))"
        by (auto simp: linked_def split: option.splits)
      have "validateLoop s i = validateLoop s (i + 1)"
        using lt h by (subst validateLoop.simps) simp
      also have "\<dots> = Inr True \<longleftrightarrow> (\<forall>j. i + 1 \<le> j \<and> j < length (blockchain s) \<longrightarrow> linked s j)"
        using lt h by (intro "1.hyps") simp_all
      also have "\<dots> \<longleftrightarrow> (\<forall>j. i \<le> j \<and> j < length (blockchain s) \<longrightarrow> linked s j)"
      proof
        assume a: "\<forall>j. i + 1 \<le> j \<and> j < length (blockchain s) \<longrightarrow> linked s j"
        show "\<forall>j. i \<le> j \<and> j < length (blockchain s) \<longrightarrow> linked s j"
        proof (intro allI impI)
          fix j assume "i \<le> j \<and> j < length (blockchain s)"
          then have "j = i \<or> (i + 1 \<le> j \<and> j < length (blockchain s))" by arith
          with a True show "linked s j" by blast
        qed
      next
        assume "\<forall>j. i \<le> j \<and> j < length (blockchain s) \<longrightarrow> linked s j"
        then show "\<forall>j. i + 1 \<le> j \<and> j < length (blockchain s) \<longrightarrow> linked s j" by simp
      qed
      finally show ?thesis .
    qed
  qed
qed

lemma validateLoop_bool:
  "\<forall>j. i \<le> j \<and> j < length (blockchain s) \<longrightarrow> hash (blockchain s ! j) \<noteq> None \<Longrightarrow>
     validateLoop s i = Inr True \<or> validateLoop s i = Inr False"
proof (induct s i rule: validateLoop.induct)
  case (1 s i)
  show ?case
  proof (cases "i < length (blockchain s)")
    case False
    then show ?thesis by (subst (1 2) validateLoop.simps) simp
  next
    case True
    with "1.prems" obtain h where h: "hash (blockchain s ! i) = Some h" by auto
    show ?thesis
    proof (cases "startsWith h (repeat (CHR ''0'') (difficulty s)) \<and>
                  previousHash (blockchain s ! i) = hash (blockchain s ! (i - 1))")
      case False
      with True h have "validateLoop s i = Inr False"
        by (subst validateLoop.simps) auto
      then show ?thesis by simp
    next
      case c: True
      with True h have e: "validateLoop s i = validateLoop s (i + 1)"
        by (subst validateLoop.simps) simp
      have "validateLoop s (i + 1) = Inr True \<or> validateLoop s (i + 1) = Inr False"
      proof (rule "1.hyps")
        show "i < length (blockchain s)" by (rule True)
        show "hash (blockchain s ! i) = Some h" by (rule h)
        show "\<not> \<not> startsWith h (repeat (CHR ''0'') (difficulty s))" using c by simp
        show "\<not> previousHash (blockchain s ! i) \<noteq> hash (blockchain s ! (i - 1))" using c by simp
        show "\<forall>j. i + 1 \<le> j \<and> j < length (blockchain s) \<longrightarrow> hash (blockchain s ! j) \<noteq> None"
          using "1.prems" by simp
      qed
      with e show ?thesis by simp
    qed
  qed
qed

lemma tamper_fields [simp]:
  "length (blockchain (tamper i p s)) = length (blockchain s)"
  "difficulty (tamper i p s) = difficulty s"
  "i < length (blockchain s) \<Longrightarrow> previousHash (blockchain (tamper i p s) ! i) = p"
  by (simp_all add: tamper_def)

lemma tamper_hash [simp]:
  "j < length (blockchain s) \<Longrightarrow> hash (blockchain (tamper i p s) ! j) = hash (blockchain s ! j)"
  by (cases "i = j") (simp_all add: tamper_def)

section \<open>Registered parties and sealed blocks\<close>

lemma map_fst_Map_set:
  "map fst (Map_set k v ws) = (if k \<in> set (map fst ws) then map fst ws else map fst ws @ [k])"
proof (induct ws)
  case Nil
  show ?case by simp
next
  case (Cons e ws)
  obtain a w where e: "e = (a, w)" by (cases e)
  show ?case
  proof (cases "a = k")
    case True
    with e show ?thesis by simp
  next
    case False
    with e Cons show ?thesis by (cases "k \<in> set (map fst ws)") simp_all
  qed
qed

lemma keys_Map_set: "set (map fst (Map_set k v ws)) = insert k (set (map fst ws))"
  by (simp only: map_fst_Map_set) auto

lemma map_of_key: "map_of ws k = Some w \<Longrightarrow> k \<in> set (map fst ws)"
  by (auto dest!: map_of_SomeD intro: rev_image_eqI)


lemma wellformed_keys:
  assumes "wellformed s" and "set (map fst (wallets s)) \<subseteq> set (map fst ws')"
    and "set (transactionPool s') \<subseteq> set (transactionPool s)"
    and "set (blockchain s') \<subseteq> set (blockchain s) \<union> {b. hash b \<noteq> None}"
    and "wallets s' = ws'"
  shows "wellformed s'"
  unfolding wellformed_def
proof (intro conjI ballI)
  fix tx assume "tx \<in> set (transactionPool s')"
  with assms(3) have tx: "tx \<in> set (transactionPool s)" by blast
  with assms(1) have f: "tx_from tx \<in> set (map fst (wallets s))"
    and t: "case tx_to tx of None \<Rightarrow> False | Some t \<Rightarrow> t \<in> set (map fst (wallets s))"
    unfolding wellformed_def by blast+
  from f assms(2,5) show "tx_from tx \<in> set (map fst (wallets s'))" by blast
  from t assms(2,5) show "case tx_to tx of None \<Rightarrow> False | Some t \<Rightarrow> t \<in> set (map fst (wallets s'))"
    by (cases "tx_to tx") auto
next
  fix b assume "b \<in> set (blockchain s')"
  with assms(4) have "b \<in> set (blockchain s) \<or> hash b \<noteq> None" by blast
  with assms(1) show "hash b \<noteq> None" unfolding wellformed_def by blast
qed

lemma wellformed_constructor: "wellformed constructor"
  by (simp add: wellformed_def constructor_def)

lemma wellformed_createWallet:
  assumes "wellformed s"
  shows "wellformed (snd (createWallet pf randomData now lbl initialBalance s))"
proof (rule wellformed_keys[OF assms])
  let ?s' = "snd (createWallet pf randomData now lbl initialBalance s)"
  show "wallets ?s' = wallets ?s'" ..
  have "wallets ?s' = Map_set (generateAddress pf randomData)
          (fst (createWallet pf randomData now lbl initialBalance s)) (wallets s)"
    by (simp add: createWallet_def Let_def)
  then show "set (map fst (wallets s)) \<subseteq> set (map fst (wallets ?s'))"
    by (simp only: keys_Map_set) blast
  show "set (transactionPool ?s') \<subseteq> set (transactionPool s)"
    by (simp add: createWallet_def Let_def)
  show "set (blockchain ?s') \<subseteq> set (blockchain s) \<union> {b. hash b \<noteq> None}"
    by (simp add: createWallet_def Let_def)
qed

lemma wellformed_createGenesisBlock:
  assumes "wellformed s"
  shows "wellformed (createGenesisBlock pf now s)"
  by (rule wellformed_keys[OF assms, where ws' = "wallets s"])
     (auto simp: createGenesisBlock_def)

lemma wellformed_setDifficulty: "wellformed s \<Longrightarrow> wellformed (setDifficulty d s)"
  by (rule wellformed_keys[where ws' = "wallets s"]) (auto simp: setDifficulty_def)

lemma wellformed_addTransaction:
  assumes "wellformed s"
  shows "wellformed (snd (addTransaction ident now f t a s))"
proof (cases "\<exists>fw tw. map_of (wallets s) f = Some fw \<and> map_of (wallets s) t = Some tw \<and>
                 \<not> balance fw < a \<and> \<not> a \<le> 0")
  case True
  then obtain fw tw where h: "map_of (wallets s) f = Some fw" "map_of (wallets s) t = Some tw"
    "\<not> balance fw < a" "\<not> a \<le> 0" by blast
  have k: "f \<in> set (map fst (wallets s))" "t \<in> set (map fst (wallets s))"
    using h(1,2) by (simp_all only: map_of_key)
  let ?tx = "Transaction ident now f (Some t) a"
  have eq: "snd (addTransaction ident now f t a s) =
      s\<lparr>transactionPool := transactionPool s @ [?tx]\<rparr>"
    using h by (simp add: addTransaction_def)
  have tx: "tx_from ?tx = f" "tx_to ?tx = Some t" by (simp_all add: Transaction_def)
  show ?thesis
    unfolding eq wellformed_def
  proof (intro conjI ballI)
    fix x assume "x \<in> set (transactionPool (s\<lparr>transactionPool := transactionPool s @ [?tx]\<rparr>))"
    then have x: "x \<in> set (transactionPool s) \<or> x = ?tx" by auto
    from x assms k tx
    show "tx_from x \<in> set (map fst (wallets (s\<lparr>transactionPool := transactionPool s @ [?tx]\<rparr>)))"
      unfolding wellformed_def by auto
    from x show "case tx_to x of None \<Rightarrow> False
        | Some t \<Rightarrow> t \<in> set (map fst (wallets (s\<lparr>transactionPool := transactionPool s @ [?tx]\<rparr>)))"
    proof
      assume "x \<in> set (transactionPool s)"
      with assms have "case tx_to x of None \<Rightarrow> False | Some t \<Rightarrow> t \<in> set (map fst (wallets s))"
        unfolding wellformed_def by blast
      then show ?thesis by (cases "tx_to x") simp_all
    next
      assume "x = ?tx"
      with k(2) tx(2) show ?thesis by simp
    qed
  next
    fix b assume "b \<in> set (blockchain (s\<lparr>transactionPool := transactionPool s @ [?tx]\<rparr>))"
    with assms show "hash b \<noteq> None" unfolding wellformed_def by simp
  qed
next
  case False
  then have "snd (addTransaction ident now f t a s) = s"
    by (auto simp: addTransaction_def split: option.splits)
  with assms show ?thesis by simp
qed

lemma wellformed_addBlock:
  assumes "wellformed s" and "addBlock pf ev s = Some (r, s')"
  shows "wellformed s'"
proof (cases "blockchain s = []")
  case True
  with assms(2) have "s' = createGenesisBlock pf (blockTime ev) s"
    by (simp add: addBlock_def)
  with assms(1) show ?thesis by (simp add: wellformed_createGenesisBlock)
next
  case False
  have pool: "set (drop 10 (transactionPool s)) \<subseteq> set (transactionPool s)"
    by (rule set_drop_subset)
  show ?thesis
  proof (cases r)
    case None
    with assms(2) False
    have eq: "s' = s\<lparr>transactionPool := drop 10 (transactionPool s), currentNonce := currentNonce s'\<rparr>"
      by (simp add: addBlock_discarded)
    show ?thesis
    proof (rule wellformed_keys[OF assms(1), where ws' = "wallets s"])
      show "set (map fst (wallets s)) \<subseteq> set (map fst (wallets s))" ..
      show "wallets s' = wallets s" using arg_cong[OF eq, of wallets] by simp
      show "set (transactionPool s') \<subseteq> set (transactionPool s)"
        using arg_cong[OF eq, of transactionPool] pool by simp
      show "set (blockchain s') \<subseteq> set (blockchain s) \<union> {b. hash b \<noteq> None}"
        using arg_cong[OF eq, of blockchain] by simp
    qed
  next
    case (Some b)
    with assms(2) have a: "addBlock pf ev s = Some (Some b, s')" by simp
    from addBlock_appended[OF a] have b: "hash b \<noteq> None" by (auto simp: sealed_def)
    show ?thesis
    proof (rule wellformed_keys[OF assms(1), where ws' = "wallets s'"])
      show "wallets s' = wallets s'" ..
      show "set (map fst (wallets s)) \<subseteq> set (map fst (wallets s'))"
        by (simp only: addBlock_appended_fields(3)[OF a] map_fst_processTransactions)
      show "set (transactionPool s') \<subseteq> set (transactionPool s)"
        using pool by (simp only: addBlock_appended_fields(2)[OF a])
      show "set (blockchain s') \<subseteq> set (blockchain s) \<union> {b. hash b \<noteq> None}"
        using b by (simp add: addBlock_appended_fields(1)[OF a])
    qed
  qed
qed

lemma reachable_wellformed: "reachable pf s \<Longrightarrow> wellformed s"
proof (induct rule: reachable.induct)
  case start
  show ?case by (rule wellformed_constructor)
next
  case (wallet s initialBalance randomData now lbl)
  then show ?case by (simp add: wellformed_createWallet)
next
  case (genesis s now)
  then show ?case by (simp add: wellformed_createGenesisBlock)
next
  case (submit s ident now f t a)
  then show ?case by (simp add: wellformed_addTransaction)
next
  case (slider s d)
  then show ?case by (simp add: wellformed_setDifficulty)
next
  case (produce s ev r s')
  then show ?case by (blast intro: wellformed_addBlock)
qed


lemma reachable_hashes:
  assumes "reachable pf s" and "i < length (blockchain s)"
  shows "hash (blockchain s ! i) \<noteq> None"
  using reachable_wellformed[OF assms(1)] assms(2) by (simp add: wellformed_def)

section \<open>Settlement of a batch\<close>





section \<open>Validation of the whole chain\<close>

text \<open>
  C2, amended. \<open>validateChain\<close> returns true exactly when every block from position 1 on
  has a hash with the current difficulty's prefix of zeros and a previous hash equal to
  its predecessor's hash; so it returns true on chains of no or one block. When every
  block from position 1 on has a hash, as in every reachable state, the result is a
  boolean: false when some pair fails. Giving a block at a position \<open>i \<ge> 1\<close>, whose
  previous hash was its predecessor's hash, a different previous hash makes the result
  differ from true, and false on such chains; the genesis block's previous hash is never
  read. \<open>validateChain\<close> is a function of the state and returns no state: it changes none.
\<close>

theorem C2_validateChain:
  "(validateChain s = Inr True \<longleftrightarrow> (\<forall>i. 1 \<le> i \<and> i < length (blockchain s) \<longrightarrow> linked s i)) \<and>
   (length (blockchain s) \<le> 1 \<longrightarrow> validateChain s = Inr True) \<and>
   ((\<forall>i. 1 \<le> i \<and> i < length (blockchain s) \<longrightarrow> hash (blockchain s ! i) \<noteq> None) \<longrightarrow>
      validateChain s = Inr (\<forall>i. 1 \<le> i \<and> i < length (blockchain s) \<longrightarrow> linked s i)) \<and>
   (\<forall>pf. reachable pf s \<longrightarrow>
      validateChain s = Inr (\<forall>i. 1 \<le> i \<and> i < length (blockchain s) \<longrightarrow> linked s i)) \<and>
   (\<forall>i p. 1 \<le> i \<and> i < length (blockchain s) \<and>
          previousHash (blockchain s ! i) = hash (blockchain s ! (i - 1)) \<and>
          p \<noteq> previousHash (blockchain s ! i) \<longrightarrow>
          validateChain (tamper i p s) \<noteq> Inr True \<and>
          ((\<forall>j. 1 \<le> j \<and> j < length (blockchain s) \<longrightarrow> hash (blockchain s ! j) \<noteq> None) \<longrightarrow>
             validateChain (tamper i p s) = Inr False)) \<and>
   (\<forall>p. validateChain (tamper 0 p s) = validateChain s)"
proof -
  have iff: "validateChain s = Inr True \<longleftrightarrow> (\<forall>i. 1 \<le> i \<and> i < length (blockchain s) \<longrightarrow> linked s i)"
    for s
    by (simp add: validateChain_def validateLoop_True)
  have bool: "validateChain s = Inr (\<forall>i. 1 \<le> i \<and> i < length (blockchain s) \<longrightarrow> linked s i)"
    if "\<forall>i. 1 \<le> i \<and> i < length (blockchain s) \<longrightarrow> hash (blockchain s ! i) \<noteq> None" for s
  proof -
    from validateLoop_bool[of 1 s] that
    have "validateChain s = Inr True \<or> validateChain s = Inr False"
      by (simp add: validateChain_def)
    with iff[of s] show ?thesis by auto
  qed
  have short: "length (blockchain s) \<le> 1 \<longrightarrow> validateChain s = Inr True"
    by (auto simp: iff)
  have reach: "validateChain s = Inr (\<forall>i. 1 \<le> i \<and> i < length (blockchain s) \<longrightarrow> linked s i)"
    if "reachable pf s" for pf
    using reachable_hashes[OF that] by (intro bool) simp
  have mut: "validateChain (tamper i p s) \<noteq> Inr True \<and>
          ((\<forall>j. 1 \<le> j \<and> j < length (blockchain s) \<longrightarrow> hash (blockchain s ! j) \<noteq> None) \<longrightarrow>
             validateChain (tamper i p s) = Inr False)"
    if h: "1 \<le> i \<and> i < length (blockchain s) \<and>
           previousHash (blockchain s ! i) = hash (blockchain s ! (i - 1)) \<and>
           p \<noteq> previousHash (blockchain s ! i)" for i p
  proof -
    have nl: "\<not> linked (tamper i p s) i"
    proof
      assume l: "linked (tamper i p s) i"
      from h have i: "i < length (blockchain s)" "i - 1 < length (blockchain s)" by auto
      from l have "previousHash (blockchain (tamper i p s) ! i) =
          hash (blockchain (tamper i p s) ! (i - 1))"
        by (simp only: linked_def)
      then have "p = hash (blockchain s ! (i - 1))"
        by (simp only: tamper_fields(3)[OF i(1)] tamper_hash[OF i(2)])
      moreover from h have "previousHash (blockchain s ! i) = hash (blockchain s ! (i - 1))"
        and "p \<noteq> previousHash (blockchain s ! i)" by blast+
      ultimately show False by simp
    qed
    then have na: "\<not> (\<forall>j. 1 \<le> j \<and> j < length (blockchain (tamper i p s)) \<longrightarrow> linked (tamper i p s) j)"
      using h by auto
    then have 1: "validateChain (tamper i p s) \<noteq> Inr True"
      by (simp only: iff) simp
    have 2: "validateChain (tamper i p s) = Inr False"
      if hs: "\<forall>j. 1 \<le> j \<and> j < length (blockchain s) \<longrightarrow> hash (blockchain s ! j) \<noteq> None"
    proof -
      have "\<forall>j. 1 \<le> j \<and> j < length (blockchain (tamper i p s)) \<longrightarrow>
            hash (blockchain (tamper i p s) ! j) \<noteq> None"
        using hs by simp
      from bool[OF this] na show ?thesis by simp
    qed
    from 1 2 show ?thesis by blast
  qed
  have gen: "validateChain (tamper 0 p s) = validateChain s" for p
  proof -
    have "validateLoop (tamper 0 p s) i = validateLoop s i" if "1 \<le> i" for i
      using that
    proof (induct s i rule: validateLoop.induct)
      case (1 s i)
      show ?case
      proof (cases "i < length (blockchain s)")
        case False
        then show ?thesis by (subst (1 2) validateLoop.simps) simp
      next
        case True
        have p: "previousHash (blockchain (tamper 0 p s) ! i) = previousHash (blockchain s ! i)"
          using "1.prems" True by (simp add: tamper_def nth_list_update)
        have q: "hash (blockchain (tamper 0 p s) ! (i - 1)) = hash (blockchain s ! (i - 1))"
          using True by simp
        show ?thesis
        proof (cases "hash (blockchain s ! i)")
          case None
          with True show ?thesis by (subst (1 2) validateLoop.simps) simp
        next
          case (Some h)
          show ?thesis
          proof (cases "startsWith h (repeat (CHR ''0'') (difficulty s)) \<and>
                  previousHash (blockchain s ! i) = hash (blockchain s ! (i - 1))")
            case False
            with True Some p q show ?thesis by (subst (1 2) validateLoop.simps) auto
          next
            case c: True
            have "validateLoop (tamper 0 p s) (i + 1) = validateLoop s (i + 1)"
            proof (rule "1.hyps")
              show "i < length (blockchain s)" by (rule True)
              show "hash (blockchain s ! i) = Some h" by (rule Some)
              show "\<not> \<not> startsWith h (repeat (CHR ''0'') (difficulty s))" using c by simp
              show "\<not> previousHash (blockchain s ! i) \<noteq> hash (blockchain s ! (i - 1))"
                using c by simp
              show "1 \<le> i + 1" by simp
            qed
            with True Some c p q show ?thesis by (subst (1 2) validateLoop.simps) simp
          qed
        qed
      qed
    qed
    then show ?thesis by (simp add: validateChain_def)
  qed
  from iff[of s] short bool[of s] reach mut gen show ?thesis by blast
qed


lemma demo3_chain: "blockchain demo3 = [demoGenesis]"
  by (simp add: demo3_def createGenesisBlock_def demo2_def demo1_def createWallet_def
        constructor_def Let_def demoGenesis_def demo_calculateHash Block_def
        toString.simps[of 10 0] digits_def)

lemma demo5_chain: "blockchain demo5 = [demoGenesis, demoMined]"
  by (simp add: demo5_def demo4_fields demo3_chain)

lemma demoMined_fields:
  "hash demoMined = Some (''000b'' @ concat (replicate 30 ''ab''))"
  "previousHash demoMined = Some (''5a0b'' @ concat (replicate 30 ''ab''))"
proof -
  show "hash demoMined = Some (''000b'' @ concat (replicate 30 ''ab''))"
    by (simp only: demoMined_def demo_sealed_hash)
  show "previousHash demoMined = Some (''5a0b'' @ concat (replicate 30 ''ab''))"
    by (simp add: demoMined_def sealed_def newBlock_def Block_def demo4_fields demo3_chain
          demoGenesis_def)
qed

lemma demo5_difficulty: "difficulty demo5 = 3"
  by (simp add: demo5_def demo4_fields)

lemma demo5_linked: "linked demo5 1"
  by (simp add: linked_def demo5_chain demoMined_fields demo5_difficulty demoGenesis_def
        Block_def startsWith_def repeat_def numeral_3_eq_3)

text \<open>
  The chain of the run is accepted; with another previous hash in block 1 it is
  refused; the chain of one block is accepted.
\<close>

theorem C2_validateChain_witness:
  "reachable demo demo5 \<and>
   length (blockchain demo5) = 2 \<and> linked demo5 1 \<and> validateChain demo5 = Inr True \<and>
   previousHash (blockchain demo5 ! 1) = Some (''5a0b'' @ concat (replicate 30 ''ab'')) \<and>
   Some ''bad'' \<noteq> previousHash (blockchain demo5 ! 1) \<and>
   validateChain (tamper 1 (Some ''bad'') demo5) = Inr False \<and>
   length (blockchain demo3) \<le> 1 \<and> validateChain demo3 = Inr True"
proof -
  have l: "length (blockchain demo5) = 2" "length (blockchain demo3) \<le> 1"
    by (simp_all add: demo5_chain demo3_chain)
  have a: "\<forall>i. 1 \<le> i \<and> i < length (blockchain demo5) \<longrightarrow> linked demo5 i"
  proof (intro allI impI)
    fix i assume "1 \<le> i \<and> i < length (blockchain demo5)"
    then have "i = 1" using l(1) by arith
    then show "linked demo5 i" using demo5_linked by simp
  qed
  have p: "previousHash (blockchain demo5 ! 1) = Some (''5a0b'' @ concat (replicate 30 ''ab''))"
    by (simp add: demo5_chain demoMined_fields)
  then have q: "Some ''bad'' \<noteq> previousHash (blockchain demo5 ! 1)" by simp
  note c = C2_validateChain[of demo5]
  from c a have v: "validateChain demo5 = Inr True" by blast
  have hs: "\<forall>j. 1 \<le> j \<and> j < length (blockchain demo5) \<longrightarrow> hash (blockchain demo5 ! j) \<noteq> None"
  proof (intro allI impI)
    fix j assume "1 \<le> j \<and> j < length (blockchain demo5)"
    then have "j = 1" using l(1) by arith
    then show "hash (blockchain demo5 ! j) \<noteq> None"
      by (simp add: demo5_chain demoMined_fields)
  qed
  have lk: "previousHash (blockchain demo5 ! 1) = hash (blockchain demo5 ! (1 - 1))"
    using demo5_linked by (simp add: linked_def)
  from c have "\<forall>i p. 1 \<le> i \<and> i < length (blockchain demo5) \<and>
          previousHash (blockchain demo5 ! i) = hash (blockchain demo5 ! (i - 1)) \<and>
          p \<noteq> previousHash (blockchain demo5 ! i) \<longrightarrow>
          validateChain (tamper i p demo5) \<noteq> Inr True \<and>
          ((\<forall>j. 1 \<le> j \<and> j < length (blockchain demo5) \<longrightarrow> hash (blockchain demo5 ! j) \<noteq> None) \<longrightarrow>
             validateChain (tamper i p demo5) = Inr False)"
    by (elim conjE)
  then have "1 \<le> (1::nat) \<and> 1 < length (blockchain demo5) \<and>
          previousHash (blockchain demo5 ! 1) = hash (blockchain demo5 ! (1 - 1)) \<and>
          Some ''bad'' \<noteq> previousHash (blockchain demo5 ! 1) \<longrightarrow>
          validateChain (tamper 1 (Some ''bad'') demo5) \<noteq> Inr True \<and>
          ((\<forall>j. 1 \<le> j \<and> j < length (blockchain demo5) \<longrightarrow> hash (blockchain demo5 ! j) \<noteq> None) \<longrightarrow>
             validateChain (tamper 1 (Some ''bad'') demo5) = Inr False)"
    by blast
  with l(1) q lk hs have t: "validateChain (tamper 1 (Some ''bad'') demo5) = Inr False" by simp
  from C2_validateChain[of demo3] l(2) have "validateChain demo3 = Inr True" by blast
  with l demo5_linked v p q t reachable_demo5 show ?thesis by blast
qed

text \<open>
  The claim as first stated has every change of a previous hash detected. The genesis
  block of the run gets previous hash \<open>1\<close> instead of \<open>0\<close>, and the chain is still
  accepted.
\<close>

theorem C2_validateChain_counterexample:
  "validateChain demo5 = Inr True \<and>
   previousHash (blockchain demo5 ! 0) = Some ''0'' \<and>
   previousHash (blockchain (tamper 0 (Some ''1'') demo5) ! 0) = Some ''1'' \<and>
   Some ''1'' \<noteq> previousHash (blockchain demo5 ! 0) \<and>
   validateChain (tamper 0 (Some ''1'') demo5) = Inr True"
proof -
  have l: "length (blockchain demo5) = 2" by (simp add: demo5_chain)
  have t: "linked (tamper 0 (Some ''1'') demo5) 1"
    by (simp add: linked_def tamper_def demo5_chain demoMined_fields demo5_difficulty demoGenesis_def
        Block_def startsWith_def repeat_def numeral_3_eq_3)
  have a: "\<forall>i. 1 \<le> i \<and> i < length (blockchain s) \<longrightarrow> linked s i"
    if "length (blockchain s) = 2" "linked s 1" for s
  proof (intro allI impI)
    fix i assume "1 \<le> i \<and> i < length (blockchain s)"
    then have "i = 1" using that(1) by arith
    then show "linked s i" using that(2) by simp
  qed
  have "validateChain demo5 = Inr True"
    using a[OF l demo5_linked] by (simp add: validateChain_def validateLoop_True)
  moreover have "validateChain (tamper 0 (Some ''1'') demo5) = Inr True"
    using a[of "tamper 0 (Some ''1'') demo5", OF _ t] l
    by (simp add: validateChain_def validateLoop_True)
  moreover have "previousHash (blockchain demo5 ! 0) = Some ''0''"
    "previousHash (blockchain (tamper 0 (Some ''1'') demo5) ! 0) = Some ''1''"
    by (simp_all add: demo5_chain demoGenesis_def Block_def tamper_def)
  ultimately show ?thesis by simp
qed

section \<open>Rounding\<close>

lemma floor_rat_numeral: "\<lfloor>(numeral a / numeral b :: rat)\<rfloor> = numeral a div numeral b"
proof -
  have "\<lfloor>(of_int (numeral a) / of_int (numeral b) :: rat)\<rfloor> = numeral a div numeral b"
    by (rule floor_divide_of_int_eq)
  then show ?thesis by simp
qed

lemma expo_eq:
  assumes lo: "2 powi (e + 52) \<le> \<bar>x\<bar>" and hi: "\<bar>x\<bar> < 2 powi (e + 53)" and e: "- 1074 \<le> e"
  shows "expo x = e"
proof -
  let ?n = "\<lfloor>\<bar>x\<bar> * 2 ^ tiny\<rfloor>"
  define K where "K = nat (e + int tiny + 52)"
  have t: "int tiny = 1074" by (simp add: tiny_def)
  have k: "int K = e + 52 + int tiny" "int (Suc K) = e + 53 + int tiny"
    using e t by (simp_all add: K_def)
  have p1: "(2::rat) powi (e + 52) * 2 ^ tiny = 2 ^ K"
  proof -
    have "(2::rat) powi (e + 52) * 2 ^ tiny = 2 powi (e + 52) * 2 powi (int tiny)"
      by (simp only: power_int_of_nat)
    also have "\<dots> = 2 powi (e + 52 + int tiny)" by (simp add: power_int_add)
    also have "\<dots> = 2 powi (int K)" by (simp only: k(1))
    finally show ?thesis by (simp only: power_int_of_nat)
  qed
  have p2: "(2::rat) powi (e + 53) * 2 ^ tiny = 2 ^ Suc K"
  proof -
    have "(2::rat) powi (e + 53) * 2 ^ tiny = 2 powi (e + 53) * 2 powi (int tiny)"
      by (simp only: power_int_of_nat)
    also have "\<dots> = 2 powi (e + 53 + int tiny)" by (simp add: power_int_add)
    also have "\<dots> = 2 powi (int (Suc K))" by (simp only: k(2))
    finally show ?thesis by (simp only: power_int_of_nat)
  qed
  have pos: "(0::rat) \<le> 2 ^ tiny" "(0::rat) < 2 ^ tiny" by simp_all
  have a: "(2::rat) ^ K \<le> \<bar>x\<bar> * 2 ^ tiny"
    using mult_right_mono[OF lo pos(1)] by (simp only: p1)
  have b: "\<bar>x\<bar> * 2 ^ tiny < (2::rat) ^ Suc K"
    using mult_strict_right_mono[OF hi pos(2)] by (simp only: p2)
  have "(of_int (2 ^ K) :: rat) \<le> \<bar>x\<bar> * 2 ^ tiny" using a by simp
  then have n_lo: "2 ^ K \<le> ?n" by (simp only: le_floor_iff)
  have "\<bar>x\<bar> * 2 ^ tiny < (of_int (2 ^ Suc K) :: rat)" using b by simp
  then have n_hi: "?n < 2 ^ Suc K" by (simp only: floor_less_iff)
  have nat: "nat (int (Suc K)) = Suc K" "nat (int (Suc K)) - 1 = K" by simp_all
  have "bitlen ?n \<le> int (Suc K)"
    using n_hi by (simp only: bitlen_le_iff_power nat) simp
  moreover have "int (Suc K) \<le> bitlen ?n"
    using n_lo by (simp only: bitlen_ge_iff_power nat) simp
  ultimately have "bitlen ?n = e + 53 + int tiny" using k(2) by simp
  then show ?thesis using e t by (simp add: expo_def)
qed

lemma round64_at:
  assumes "2 powi (e + 52) \<le> \<bar>x\<bar>" and "\<bar>x\<bar> < 2 powi (e + 53)" and "- 1074 \<le> e"
  shows "round64 x = of_int (roundEven (x / 2 powi e)) * 2 powi e"
  by (simp only: round64_def expo_eq[OF assms])

lemma roundEven_of_int [simp]: "roundEven (of_int m) = m"
  by (simp add: roundEven_def)

text \<open>
  Whole numbers below \<open>2^53\<close> are values: a whole sum or difference below \<open>2^53\<close> is
  not rounded.
\<close>

lemma round64_whole:
  assumes "\<bar>m\<bar> < 2 ^ 53"
  shows "round64 (of_int m) = of_int m"
proof (cases "m = 0")
  case True
  have "roundEven 0 = 0" using roundEven_of_int[of 0] by simp
  with True show ?thesis by (simp add: round64_def)
next
  case False
  let ?x = "of_int m :: rat"
  have f: "\<lfloor>\<bar>?x\<bar> * 2 ^ tiny\<rfloor> = \<bar>m\<bar> * 2 ^ tiny"
  proof -
    have "\<bar>?x\<bar> * 2 ^ tiny = of_int (\<bar>m\<bar> * 2 ^ tiny)" by simp
    then show ?thesis by (simp only: floor_of_int)
  qed
  have pos: "0 < \<bar>m\<bar>" using False by simp
  have "bitlen \<bar>m\<bar> \<le> 53" using assms by (simp add: bitlen_le_iff_power)
  moreover have "bitlen (\<bar>m\<bar> * 2 ^ tiny) = bitlen \<bar>m\<bar> + int tiny"
    by (rule bitlen_pow2[OF pos])
  ultimately have le: "expo ?x \<le> 0" by (simp add: expo_def f)
  define j where "j = nat (- expo ?x)"
  have e: "expo ?x = - int j" using le by (simp add: j_def)
  have p: "(2::rat) powi expo ?x = 1 / 2 ^ j"
    by (simp only: e power_int_minus_divide power_int_of_nat)
  have "?x / 2 powi expo ?x = of_int (m * 2 ^ j)" by (simp add: p)
  then have "roundEven (?x / 2 powi expo ?x) = m * 2 ^ j" by (simp only: roundEven_of_int)
  then show ?thesis by (simp add: round64_def p)
qed

section \<open>Settlement with rounding\<close>

lemma round64_numeral [simp]: "(numeral n :: int) < 2 ^ 53 \<Longrightarrow> round64 (numeral n) = numeral n"
  using round64_whole[of "numeral n"] by simp

lemma round64_0 [simp]: "round64 0 = 0"
  using round64_whole[of 0] by simp

lemma adjust_cong_at:
  "map_of ws k = Some w \<Longrightarrow> f (balance w) = g (balance w) \<Longrightarrow> adjust k f ws = adjust k g ws"
  by (induct ws) (auto split: if_splits)

lemma map_fst_processTransaction64 [simp]: "map fst (processTransaction64 ws tx) = map fst ws"
  by (simp add: processTransaction64_def split: option.splits prod.splits)

lemma processTransactions64_Nil [simp]: "processTransactions64 ws [] = ws"
  by (simp add: processTransactions64_def)

lemma processTransactions64_Cons [simp]:
  "processTransactions64 ws (tx # txs) = processTransactions64 (processTransaction64 ws tx) txs"
  by (simp add: processTransactions64_def)

lemma map_fst_processTransactions64 [simp]: "map fst (processTransactions64 ws txs) = map fst ws"
  by (induct txs arbitrary: ws) auto

lemma processTransaction64_settled:
  assumes "tx_from tx \<noteq> ''System''" and "map_of ws (tx_from tx) = Some fw"
    and "tx_to tx = Some t" and "map_of ws t = Some tw" and "amount tx \<le> balance fw"
  shows "processTransaction64 ws tx =
           adjust t (\<lambda>b. round64 (b + amount tx)) (adjust (tx_from tx) (\<lambda>b. round64 (b - amount tx)) ws)"
proof -
  have "getTo ws (tx_to tx) = Some (t, tw)" using assms by (simp add: getTo_Some)
  with assms show ?thesis by (simp add: processTransaction64_def)
qed

lemma processTransaction64_System:
  assumes "tx_from tx = ''System''"
  shows "map_of (processTransaction64 ws tx) k =
           map_option (\<lambda>w. if tx_to tx = Some k then w\<lparr>balance := round64 (balance w + amount tx)\<rparr> else w)
             (map_of ws k)"
proof (cases "getTo ws (tx_to tx)")
  case None
  then have "tx_to tx = Some k \<Longrightarrow> map_of ws k = None"
    by (auto simp: getTo_def split: option.splits)
  with None assms show ?thesis
    by (cases "map_of ws k") (auto simp: processTransaction64_def)
next
  case (Some e)
  obtain t w where e: "e = (t, w)" by (cases e)
  with Some have t: "tx_to tx = Some t" "map_of ws t = Some w"
    by (auto simp: getTo_def split: option.splits)
  from Some e assms have "processTransaction64 ws tx = adjust t (\<lambda>b. round64 (b + amount tx)) ws"
    by (simp add: processTransaction64_def)
  with t show ?thesis
    by (cases "map_of ws k") (auto simp: map_of_adjust)
qed

lemma processTransaction64_dropped:
  assumes "tx_from tx \<noteq> ''System''"
    and "map_of ws (tx_from tx) = None \<or> getTo ws (tx_to tx) = None \<or>
         (\<exists>fw. map_of ws (tx_from tx) = Some fw \<and> balance fw < amount tx)"
  shows "processTransaction64 ws tx = ws"
  using assms by (auto simp: processTransaction64_def split: option.splits)

text \<open>
  A sum or difference that is not negative is not rounded below zero, so settlement with
  rounding keeps all balances at least zero as exact settlement does.
\<close>

lemma roundEven_nonneg: "0 \<le> y \<Longrightarrow> 0 \<le> roundEven y"
  by (simp add: roundEven_def)

lemma round64_nonneg: "0 \<le> x \<Longrightarrow> 0 \<le> round64 x"
  by (simp add: round64_def roundEven_nonneg)

lemma nonneg_processTransaction64:
  assumes "0 \<le> amount tx" and "nonneg ws"
  shows "nonneg (processTransaction64 ws tx)"
proof (cases "tx_from tx = ''System''")
  case True
  show ?thesis
  proof (cases "getTo ws (tx_to tx)")
    case None
    with True assms show ?thesis by (simp add: processTransaction64_def)
  next
    case (Some e)
    obtain t w where e: "e = (t, w)" by (cases e)
    have "nonneg (adjust t (\<lambda>b. round64 (b + amount tx)) ws)"
    proof (rule nonneg_adjust[OF assms(2)])
      fix w' assume "map_of ws t = Some w'"
      from nonneg_map_of[OF assms(2) this] assms(1) show "0 \<le> round64 (balance w' + amount tx)"
        by (intro round64_nonneg) simp
    qed
    with True Some e show ?thesis by (simp add: processTransaction64_def)
  qed
next
  case False
  show ?thesis
  proof (cases "\<exists>fw t tw. map_of ws (tx_from tx) = Some fw \<and> getTo ws (tx_to tx) = Some (t, tw) \<and>
                   amount tx \<le> balance fw")
    case True
    then obtain fw t tw where h: "map_of ws (tx_from tx) = Some fw"
      "getTo ws (tx_to tx) = Some (t, tw)" "amount tx \<le> balance fw" by blast
    have 1: "nonneg (adjust (tx_from tx) (\<lambda>b. round64 (b - amount tx)) ws)"
    proof (rule nonneg_adjust[OF assms(2)])
      fix w assume "map_of ws (tx_from tx) = Some w"
      with h(1,3) show "0 \<le> round64 (balance w - amount tx)"
        by (intro round64_nonneg) simp
    qed
    have "nonneg (adjust t (\<lambda>b. round64 (b + amount tx))
              (adjust (tx_from tx) (\<lambda>b. round64 (b - amount tx)) ws))"
    proof (rule nonneg_adjust[OF 1])
      fix w assume "map_of (adjust (tx_from tx) (\<lambda>b. round64 (b - amount tx)) ws) t = Some w"
      from nonneg_map_of[OF 1 this] assms(1) show "0 \<le> round64 (balance w + amount tx)"
        by (intro round64_nonneg) simp
    qed
    with False h show ?thesis by (simp add: processTransaction64_def)
  next
    case False
    with \<open>tx_from tx \<noteq> ''System''\<close> have "processTransaction64 ws tx = ws"
      by (auto simp: processTransaction64_def split: option.splits)
    with assms show ?thesis by simp
  qed
qed

lemma nonneg_processTransactions64:
  "\<forall>tx \<in> set txs. 0 \<le> amount tx \<Longrightarrow> nonneg ws \<Longrightarrow> nonneg (processTransactions64 ws txs)"
  by (induct txs arbitrary: ws) (auto intro: nonneg_processTransaction64)

section \<open>Block production with rounding\<close>

lemma addBlock64_appended:
  assumes "addBlock64 pf ev s = Some (Some b, s')"
  shows "blockchain s \<noteq> []"
    and "wallets s' = processTransactions64 (wallets s) (transactions (newBlock ev s))"
    and "transactionPool s' = drop 10 (transactionPool s)"
    and "miningReward s' = miningReward s"
    and "blockchain s' = blockchain s @ [b]"
proof -
  show ne: "blockchain s \<noteq> []"
    using assms by (auto simp: addBlock64_def)
  let ?s1 = "s\<lparr>transactionPool := drop 10 (transactionPool s)\<rparr>"
  from ne assms obtain r1 s1 where
    m: "mineBlock pf (isMiningAt ev) ?s1 (newBlock ev s) = Some (r1, s1)"
    by (auto simp: addBlock64_def split: option.splits)
  from ne assms m have r1: "r1 = Some b" and after: "isMiningAfter ev"
    by (cases r1; auto simp: addBlock64_def split: if_splits)+
  from ne assms m r1 after have s': "s' = s1\<lparr>blockchain := blockchain s1 @ [b],
      blocksMined := blocksMined s1 + 1,
      wallets := processTransactions64 (wallets s1) (transactions (newBlock ev s))\<rparr>"
    by (simp add: addBlock64_def)
  from mineBlock_result[OF m]
  have s1: "s1 = ?s1\<lparr>currentNonce := currentNonce s1\<rparr>" by simp
  have f: "wallets s1 = wallets s" "transactionPool s1 = drop 10 (transactionPool s)"
    "miningReward s1 = miningReward s" "blockchain s1 = blockchain s"
    using arg_cong[OF s1, of wallets] arg_cong[OF s1, of transactionPool]
      arg_cong[OF s1, of miningReward] arg_cong[OF s1, of blockchain] by simp_all
  show "wallets s' = processTransactions64 (wallets s) (transactions (newBlock ev s))"
    by (simp add: s' f)
  show "transactionPool s' = drop 10 (transactionPool s)" by (simp add: s' f)
  show "miningReward s' = miningReward s" by (simp add: s' f)
  show "blockchain s' = blockchain s @ [b]" by (simp add: s' f)
qed

lemma addBlock64_none:
  assumes "blockchain s \<noteq> []" and "addBlock64 pf ev s = Some (None, s')"
  shows "s' = s\<lparr>transactionPool := drop 10 (transactionPool s), currentNonce := currentNonce s'\<rparr>"
proof -
  let ?s1 = "s\<lparr>transactionPool := drop 10 (transactionPool s)\<rparr>"
  from assms obtain r1 s1 where
    m: "mineBlock pf (isMiningAt ev) ?s1 (newBlock ev s) = Some (r1, s1)"
    by (auto simp: addBlock64_def split: option.splits)
  from assms m have "s' = s1"
    by (cases r1) (auto simp: addBlock64_def split: if_splits)
  with mineBlock_result[OF m] show ?thesis by simp
qed

text \<open>Block production with rounding keeps all balances at least zero.\<close>

lemma nonneg_addBlock64:
  assumes "nonneg (wallets s)" and "\<forall>tx \<in> set (transactionPool s). 0 \<le> amount tx"
    and "0 \<le> miningReward s" and "addBlock64 pf ev s = Some (r, s')"
  shows "nonneg (wallets s')"
proof (cases "blockchain s = []")
  case True
  with assms(4) have "s' = createGenesisBlock pf (blockTime ev) s"
    by (simp add: addBlock64_def)
  with assms(1) show ?thesis by (simp add: createGenesisBlock_def)
next
  case False
  show ?thesis
  proof (cases r)
    case None
    with assms(4) False
    have eq: "s' = s\<lparr>transactionPool := drop 10 (transactionPool s), currentNonce := currentNonce s'\<rparr>"
      by (simp add: addBlock64_none)
    have "wallets s' = wallets s" using arg_cong[OF eq, of wallets] by simp
    with assms(1) show ?thesis by simp
  next
    case (Some b)
    with assms(4) have a: "addBlock64 pf ev s = Some (Some b, s')" by simp
    have "\<forall>tx \<in> set (transactions (newBlock ev s)). 0 \<le> amount tx"
      using assms(2,3)
      by (auto simp: newBlock_def Block_def rewardTransaction_def Transaction_def dest: in_set_takeD)
    from nonneg_processTransactions64[OF this assms(1)] show ?thesis
      by (simp only: addBlock64_appended(2)[OF a])
  qed
qed

lemma keysOk_frame:
  assumes "keysOk s" and "map fst (wallets s') = map fst (wallets s)"
    and "set (transactionPool s') \<subseteq> set (transactionPool s)"
    and "miningReward s' = miningReward s"
  shows "keysOk s'"
proof -
  have "\<forall>e \<in> set (wallets s'). take 4 (fst e) = ''bc1q''"
    using assms(1) by (intro same_keys[OF assms(2)]) (simp add: keysOk_def)
  with assms show ?thesis by (auto simp: keysOk_def)
qed

lemma keysOk_addBlock64:
  assumes "keysOk s" and "addBlock64 pf ev s = Some (r, s')"
  shows "keysOk s'"
proof (cases "blockchain s = []")
  case True
  with assms(2) have "s' = createGenesisBlock pf (blockTime ev) s"
    by (simp add: addBlock64_def)
  with assms(1) show ?thesis
    by (intro keysOk_frame[OF assms(1)]) (simp_all add: createGenesisBlock_def)
next
  case False
  have pool: "set (drop 10 (transactionPool s)) \<subseteq> set (transactionPool s)"
    by (rule set_drop_subset)
  show ?thesis
  proof (cases r)
    case None
    with assms(2) False
    have eq: "s' = s\<lparr>transactionPool := drop 10 (transactionPool s), currentNonce := currentNonce s'\<rparr>"
      by (simp add: addBlock64_none)
    show ?thesis
    proof (rule keysOk_frame[OF assms(1)])
      show "map fst (wallets s') = map fst (wallets s)" using arg_cong[OF eq, of wallets] by simp
      show "set (transactionPool s') \<subseteq> set (transactionPool s)"
        using arg_cong[OF eq, of transactionPool] pool by simp
      show "miningReward s' = miningReward s" using arg_cong[OF eq, of miningReward] by simp
    qed
  next
    case (Some b)
    with assms(2) have a: "addBlock64 pf ev s = Some (Some b, s')" by simp
    show ?thesis
    proof (rule keysOk_frame[OF assms(1)])
      show "map fst (wallets s') = map fst (wallets s)"
        by (simp only: addBlock64_appended(2)[OF a] map_fst_processTransactions64)
      show "set (transactionPool s') \<subseteq> set (transactionPool s)"
        using pool by (simp only: addBlock64_appended(3)[OF a])
      show "miningReward s' = miningReward s" by (rule addBlock64_appended(4)[OF a])
    qed
  qed
qed

lemma keysOk_createWallet:
  assumes "keysOk s"
  shows "keysOk (snd (createWallet pf randomData now lbl initialBalance s))"
proof -
  let ?w = "fst (createWallet pf randomData now lbl initialBalance s)"
  have s': "snd (createWallet pf randomData now lbl initialBalance s) =
        s\<lparr>wallets := Map_set (generateAddress pf randomData) ?w (wallets s)\<rparr>"
    by (simp add: createWallet_def Let_def)
  have sub: "set (Map_set (generateAddress pf randomData) ?w (wallets s)) \<subseteq>
        insert (generateAddress pf randomData, ?w) (set (wallets s))"
    by (rule set_Map_set)
  have "\<forall>e \<in> set (Map_set (generateAddress pf randomData) ?w (wallets s)). take 4 (fst e) = ''bc1q''"
    using assms sub by (auto simp: keysOk_def)
  then show ?thesis using assms by (simp add: s' keysOk_def)
qed

lemma keysOk_addTransaction:
  assumes "keysOk s"
  shows "keysOk (snd (addTransaction ident now f t a s))"
proof (cases "\<exists>fw tw. map_of (wallets s) f = Some fw \<and> map_of (wallets s) t = Some tw \<and>
                 \<not> balance fw < a \<and> \<not> a \<le> 0")
  case True
  then obtain fw tw where h: "map_of (wallets s) f = Some fw" "map_of (wallets s) t = Some tw"
    "\<not> balance fw < a" "\<not> a \<le> 0" by blast
  have "(f, fw) \<in> set (wallets s)" using h(1) by (rule map_of_SomeD)
  then have "take 4 f = ''bc1q''" using assms by (auto simp: keysOk_def)
  then show ?thesis using assms h
    by (simp add: addTransaction_def keysOk_def Transaction_def)
next
  case False
  then have "snd (addTransaction ident now f t a s) = s"
    by (auto simp: addTransaction_def split: option.splits)
  with assms show ?thesis by simp
qed

lemma reachable64_keysOk: "reachable64 pf s \<Longrightarrow> keysOk s"
proof (induct rule: reachable64.induct)
  case start64
  show ?case by (simp add: keysOk_def constructor_def)
next
  case (wallet64 s randomData now lbl initialBalance)
  then show ?case by (simp add: keysOk_createWallet)
next
  case (genesis64 s now)
  then show ?case by (simp add: keysOk_def createGenesisBlock_def)
next
  case (submit64 s ident now f t a)
  then show ?case by (simp add: keysOk_addTransaction)
next
  case (slider64 s d)
  then show ?case by (simp add: keysOk_def setDifficulty_def)
next
  case (produce64 s ev r s')
  then show ?case by (blast intro: keysOk_addBlock64)
qed

lemma reachable64_not_System:
  assumes "reachable64 pf s" and "map_of (wallets s) a = Some w"
  shows "a \<noteq> ''System''"
proof
  assume "a = ''System''"
  moreover have "(a, w) \<in> set (wallets s)" using assms(2) by (rule map_of_SomeD)
  then have "take 4 a = ''bc1q''"
    using reachable64_keysOk[OF assms(1)] by (auto simp: keysOk_def)
  ultimately show False by simp
qed



section \<open>Conservation\<close>


section \<open>Self-transfers\<close>

text \<open>
  C10, amended. In a reachable state, a wallet may send to itself any positive amount it
  holds: the transaction enters the pool. Settling it, now or in any later registry,
  changes no other wallet. The wallet's own balance, if it still covers the amount, is
  debited and credited in turn, each time rounded, as long as the result stays in the
  finite range; if it does not cover the amount, or the wallet is gone, nothing changes.
  The balance is as before when the balance and the difference are not rounded, as whole
  numbers below \<open>2^53\<close> are not.
\<close>

theorem C10_self_transfer:
  assumes "reachable64 pf s" and "map_of (wallets s) a = Some w" and "0 < amt" and "amt \<le> balance w"
  shows "addTransaction ident now a a amt s =
           (Inr (Transaction ident now a (Some a) amt),
            s\<lparr>transactionPool := transactionPool s @ [Transaction ident now a (Some a) amt]\<rparr>) \<and>
         (finite64 (round64 (balance w - amt) + amt) \<longrightarrow>
            map_of (processTransaction64 (wallets s) (Transaction ident now a (Some a) amt)) a =
              Some (w\<lparr>balance := round64 (round64 (balance w - amt) + amt)\<rparr>)) \<and>
         (round64 (balance w - amt) = balance w - amt \<and> round64 (balance w) = balance w \<longrightarrow>
            processTransaction64 (wallets s) (Transaction ident now a (Some a) amt) = wallets s) \<and>
         (\<forall>m k. balance w = of_int m \<and> amt = of_int k \<and> m < 2 ^ 53 \<longrightarrow>
            processTransaction64 (wallets s) (Transaction ident now a (Some a) amt) = wallets s) \<and>
         (\<forall>ws k. k \<noteq> a \<longrightarrow>
            map_of (processTransaction64 ws (Transaction ident now a (Some a) amt)) k = map_of ws k) \<and>
         (\<forall>ws fw. map_of ws a = Some fw \<and> amt \<le> balance fw \<and>
              finite64 (round64 (balance fw - amt) + amt) \<longrightarrow>
            map_of (processTransaction64 ws (Transaction ident now a (Some a) amt)) a =
              Some (fw\<lparr>balance := round64 (round64 (balance fw - amt) + amt)\<rparr>)) \<and>
         (\<forall>ws fw. map_of ws a = Some fw \<and> balance fw < amt \<longrightarrow>
            processTransaction64 ws (Transaction ident now a (Some a) amt) = ws) \<and>
         (\<forall>ws. map_of ws a = None \<longrightarrow>
            processTransaction64 ws (Transaction ident now a (Some a) amt) = ws)"
proof -
  let ?tx = "Transaction ident now a (Some a) amt"
  let ?g = "\<lambda>b. round64 (round64 (b - amt) + amt)"
  have ns: "a \<noteq> ''System''" by (rule reachable64_not_System[OF assms(1,2)])
  have tx: "tx_from ?tx = a" "tx_to ?tx = Some a" "amount ?tx = amt"
    by (simp_all add: Transaction_def)
  have settle: "processTransaction64 ws ?tx = adjust a ?g ws"
    if "map_of ws a = Some fw" "amt \<le> balance fw" for ws fw
  proof -
    have "processTransaction64 ws ?tx =
        adjust a (\<lambda>b. round64 (b + amt)) (adjust a (\<lambda>b. round64 (b - amt)) ws)"
      using processTransaction64_settled[of ?tx ws fw a fw] ns that by (simp add: tx)
    then show ?thesis by (simp add: adjust_adjust o_def)
  qed
  have drop: "processTransaction64 ws ?tx = ws"
    if "map_of ws a = None \<or> (\<exists>fw. map_of ws a = Some fw \<and> balance fw < amt)" for ws
    using processTransaction64_dropped[of ?tx ws] ns that by (auto simp: tx)
  have here: "processTransaction64 (wallets s) ?tx = adjust a ?g (wallets s)"
    by (rule settle[OF assms(2,4)])
  have 1: "addTransaction ident now a a amt s = (Inr ?tx, s\<lparr>transactionPool := transactionPool s @ [?tx]\<rparr>)"
    using assms(2,3,4) by (simp add: addTransaction_def)
  have 2: "finite64 (round64 (balance w - amt) + amt) \<longrightarrow>
      map_of (processTransaction64 (wallets s) ?tx) a = Some (w\<lparr>balance := ?g (balance w)\<rparr>)"
    using assms(2) by (simp add: here map_of_adjust)
  have same: "processTransaction64 (wallets s) ?tx = wallets s" if "?g (balance w) = balance w"
  proof -
    have "adjust a ?g (wallets s) = adjust a (\<lambda>b. b) (wallets s)"
      by (rule adjust_cong_at[OF assms(2)]) (rule that)
    then show ?thesis by (simp add: here adjust_id)
  qed
  have 3: "round64 (balance w - amt) = balance w - amt \<and> round64 (balance w) = balance w \<longrightarrow>
            processTransaction64 (wallets s) ?tx = wallets s"
    by (auto intro: same)
  have 4: "\<forall>m k. balance w = of_int m \<and> amt = of_int k \<and> m < 2 ^ 53 \<longrightarrow>
            processTransaction64 (wallets s) ?tx = wallets s"
  proof (intro allI impI)
    fix m k :: int
    assume h: "balance w = of_int m \<and> amt = of_int k \<and> m < 2 ^ 53"
    with assms(3,4) have "0 < k" "k \<le> m" by simp_all
    with h have "\<bar>m - k\<bar> < 2 ^ 53" "\<bar>m\<bar> < 2 ^ 53" by simp_all
    then have "round64 (of_int (m - k)) = of_int (m - k)" "round64 (of_int m) = of_int m"
      by (simp_all only: round64_whole)
    with h have "?g (balance w) = balance w" by simp
    then show "processTransaction64 (wallets s) ?tx = wallets s" by (rule same)
  qed
  have 5: "\<forall>ws k. k \<noteq> a \<longrightarrow> map_of (processTransaction64 ws ?tx) k = map_of ws k"
  proof (intro allI impI)
    fix ws :: "(string \<times> wallet) list" and k
    assume k: "k \<noteq> a"
    show "map_of (processTransaction64 ws ?tx) k = map_of ws k"
    proof (cases "\<exists>fw. map_of ws a = Some fw \<and> amt \<le> balance fw")
      case True
      then obtain fw where "map_of ws a = Some fw" "amt \<le> balance fw" by blast
      from settle[OF this] k show ?thesis by (simp add: map_of_adjust)
    next
      case False
      then have "map_of ws a = None \<or> (\<exists>fw. map_of ws a = Some fw \<and> balance fw < amt)"
        by (cases "map_of ws a") auto
      from drop[OF this] show ?thesis by simp
    qed
  qed
  have 6: "\<forall>ws fw. map_of ws a = Some fw \<and> amt \<le> balance fw \<and>
              finite64 (round64 (balance fw - amt) + amt) \<longrightarrow>
            map_of (processTransaction64 ws ?tx) a = Some (fw\<lparr>balance := ?g (balance fw)\<rparr>)"
  proof (intro allI impI)
    fix ws :: "(string \<times> wallet) list" and fw
    assume m: "map_of ws a = Some fw \<and> amt \<le> balance fw \<and>
              finite64 (round64 (balance fw - amt) + amt)"
    then have "processTransaction64 ws ?tx = adjust a ?g ws" using settle[of ws fw] by blast
    with m show "map_of (processTransaction64 ws ?tx) a = Some (fw\<lparr>balance := ?g (balance fw)\<rparr>)"
      by (simp add: map_of_adjust)
  qed
  have 8: "\<forall>ws fw. map_of ws a = Some fw \<and> balance fw < amt \<longrightarrow> processTransaction64 ws ?tx = ws"
    using drop by blast
  have 7: "\<forall>ws. map_of ws a = None \<longrightarrow> processTransaction64 ws ?tx = ws"
    using drop by blast
  from 1 2 3 4 5 6 8 7 show ?thesis by (intro conjI)
qed

section \<open>Admission to the pool\<close>

text \<open>
  C4. In a state whose balances are not negative, as every reachable state is,
  \<open>addTransaction\<close> does what the specification's \<open>submitTransaction\<close> does: an unknown
  address gives \<open>UnknownWallet\<close>; with both wallets known, an amount that is not positive
  gives \<open>InvalidAmount\<close> and a sender's balance below the amount \<open>InsufficientBalance\<close>.
  Every failure leaves the state as it was. When the three tests pass, the new transaction
  is returned and is the new last element of the pool, nothing else changing.
\<close>

theorem C4_pool_admission:
  assumes "nonneg (wallets s)"
  shows "addTransaction ident now f t a s = submitTransaction ident now f t a s \<and>
    (map_of (wallets s) f = None \<or> map_of (wallets s) t = None \<longrightarrow>
       fst (addTransaction ident now f t a s) = Inl UnknownWallet) \<and>
    (\<forall>fw tw. map_of (wallets s) f = Some fw \<and> map_of (wallets s) t = Some tw \<longrightarrow>
       (a \<le> 0 \<longrightarrow> fst (addTransaction ident now f t a s) = Inl InvalidAmount) \<and>
       (balance fw < a \<longrightarrow> fst (addTransaction ident now f t a s) = Inl InsufficientBalance) \<and>
       (0 < a \<and> a \<le> balance fw \<longrightarrow>
          addTransaction ident now f t a s =
            (Inr (Transaction ident now f (Some t) a),
             s\<lparr>transactionPool := transactionPool s @ [Transaction ident now f (Some t) a]\<rparr>))) \<and>
    (\<forall>e. fst (addTransaction ident now f t a s) = Inl e \<longrightarrow>
       snd (addTransaction ident now f t a s) = s)"
proof -
  have n: "0 \<le> balance fw" if "map_of (wallets s) f = Some fw" for fw
    using nonneg_map_of[OF assms that] .
  have 1: "addTransaction ident now f t a s = submitTransaction ident now f t a s"
    using n by (fastforce simp: addTransaction_def submitTransaction_def split: option.splits)
  have 2: "map_of (wallets s) f = None \<or> map_of (wallets s) t = None \<longrightarrow>
       fst (addTransaction ident now f t a s) = Inl UnknownWallet"
    by (auto simp: addTransaction_def split: option.splits)
  have 3: "\<forall>fw tw. map_of (wallets s) f = Some fw \<and> map_of (wallets s) t = Some tw \<longrightarrow>
       (a \<le> 0 \<longrightarrow> fst (addTransaction ident now f t a s) = Inl InvalidAmount) \<and>
       (balance fw < a \<longrightarrow> fst (addTransaction ident now f t a s) = Inl InsufficientBalance) \<and>
       (0 < a \<and> a \<le> balance fw \<longrightarrow>
          addTransaction ident now f t a s =
            (Inr (Transaction ident now f (Some t) a),
             s\<lparr>transactionPool := transactionPool s @ [Transaction ident now f (Some t) a]\<rparr>))"
    using n by (fastforce simp: addTransaction_def)
  have 4: "\<forall>e. fst (addTransaction ident now f t a s) = Inl e \<longrightarrow>
       snd (addTransaction ident now f t a s) = s"
    by (auto simp: addTransaction_def split: option.splits)
  from 1 2 3 4 show ?thesis by (intro conjI)
qed

section \<open>Worked example: rounded values\<close>

lemmas round64_eval = roundEven_def power_int_minus_divide floor_rat_numeral

lemma cent21_eq: "cent21 = 7566047373982433 / 2 ^ 55"
  unfolding cent21_def
  by (subst round64_at[where e = "- 55"]) (simp_all add: round64_eval)

lemma cent5_eq: "cent5 = 7205759403792794 / 2 ^ 57"
  unfolding cent5_def
  by (subst round64_at[where e = "- 57"]) (simp_all add: round64_eval)



lemma cent21_minus: "round64 (cent21 - cent5) = 5764607523034234 / 2 ^ 55"
  unfolding cent21_eq cent5_eq
  by (subst round64_at[where e = "- 55"]) (simp_all add: round64_eval)

lemma cent21_back: "round64 (5764607523034234 / 2 ^ 55 + cent5) = 7566047373982432 / 2 ^ 55"
  unfolding cent5_eq
  by (subst round64_at[where e = "- 55"]) (simp_all add: round64_eval)



section \<open>Worked example: settlement with rounding\<close>


lemma reachable64_demo2: "reachable64 demo demo2"
  unfolding demo2_def demo1_def
  by (intro reachable64.wallet64 reachable64.start64)




lemma cents_wallets: "wallets cents = [(addrA, Wallet addrA ''Alice'' cent21 1)]"
  by (simp add: cents_def createWallet_def constructor_def addrA_def Let_def)

lemma reachable64_cents: "reachable64 demo cents"
  unfolding cents_def by (intro reachable64.wallet64 reachable64.start64)




section \<open>Worked example: conservation, self-transfers and admission at concrete inputs\<close>



text \<open>Alice's transfer of 30 to herself is admitted and changes no balance.\<close>

theorem C10_self_transfer_witness:
  "reachable64 demo demo2 \<and> map_of (wallets demo2) addrA = Some (Wallet addrA ''Alice'' 100 1) \<and>
   (0::rat) < 30 \<and> 30 \<le> balance (Wallet addrA ''Alice'' 100 1) \<and>
   addTransaction ''tx_2'' 4 addrA addrA 30 demo2 =
     (Inr selfTx, demo2\<lparr>transactionPool := transactionPool demo2 @ [selfTx]\<rparr>) \<and>
   finite64 (round64 (balance (Wallet addrA ''Alice'' 100 1) - 30) + 30) \<and>
   map_of (processTransaction64 (wallets demo2) selfTx) addrA = Some (Wallet addrA ''Alice'' 100 1) \<and>
   balance (Wallet addrA ''Alice'' 100 1) = of_int 100 \<and> (30::rat) = of_int 30 \<and> (100::int) < 2 ^ 53 \<and>
   processTransaction64 (wallets demo2) selfTx = wallets demo2 \<and>
   map_of (processTransaction64 (wallets demo2) selfTx) addrB = map_of (wallets demo2) addrB"
proof -
  have m: "map_of (wallets demo2) addrA = Some (Wallet addrA ''Alice'' 100 1)"
    by (simp add: demo2_wallets)
  have p: "(0::rat) < 30" by simp
  have b: "30 \<le> balance (Wallet addrA ''Alice'' 100 1)" by (simp add: Wallet_def)
  note c = C10_self_transfer[OF reachable64_demo2 m p b, of "''tx_2''" 4]
  have 1: "addTransaction ''tx_2'' 4 addrA addrA 30 demo2 =
     (Inr selfTx, demo2\<lparr>transactionPool := transactionPool demo2 @ [selfTx]\<rparr>)"
    unfolding selfTx_def by (rule c[THEN conjunct1])
  have n: "balance (Wallet addrA ''Alice'' 100 1) = of_int 100 \<and> (30::rat) = of_int 30 \<and> (100::int) < 2 ^ 53"
    by (simp add: Wallet_def)
  have 2: "processTransaction64 (wallets demo2) selfTx = wallets demo2"
    unfolding selfTx_def
    by (rule c[THEN conjunct2, THEN conjunct2, THEN conjunct2, THEN conjunct1, rule_format, OF n])
  have 3: "map_of (processTransaction64 (wallets demo2) selfTx) addrB = map_of (wallets demo2) addrB"
    unfolding selfTx_def
    by (rule c[THEN conjunct2, THEN conjunct2, THEN conjunct2, THEN conjunct2, THEN conjunct1, rule_format])
       (simp add: addr_distinct[symmetric])
  have f: "finite64 (round64 (balance (Wallet addrA ''Alice'' 100 1) - 30) + 30)"
    by (simp add: Wallet_def finite64_def)
  have 4: "map_of (processTransaction64 (wallets demo2) selfTx) addrA = Some (Wallet addrA ''Alice'' 100 1)"
    using c[THEN conjunct2, THEN conjunct1, THEN mp, OF f] by (simp add: selfTx_def Wallet_def)
  from reachable64_demo2 m p b 1 2 3 4 n f show ?thesis by blast
qed

text \<open>
  The claim as first stated fails for a wallet holding 0.21 that sends 0.05 to itself:
  the transfer is admitted, and settling it leaves \<open>7566047373982432 / 2^55\<close>, the value
  next below the \<open>7566047373982433 / 2^55\<close> that the wallet held.
\<close>

theorem C10_self_transfer_counterexample:
  "reachable64 demo cents \<and> cent21 = round64 (21 / 100) \<and> cent5 = round64 (5 / 100) \<and>
   map_option balance (map_of (wallets cents) addrA) = Some cent21 \<and>
   0 < cent5 \<and> cent5 \<le> cent21 \<and> finite64 (round64 (cent21 - cent5) + cent5) \<and>
   fst (addTransaction ''tx_2'' 4 addrA addrA cent5 cents) = Inr centsTx \<and>
   map_option balance (map_of (processTransaction64 (wallets cents) centsTx) addrA) =
     Some (7566047373982432 / 2 ^ 55) \<and>
   cent21 = 7566047373982433 / 2 ^ 55 \<and>
   (7566047373982432 / 2 ^ 55 :: rat) \<noteq> 7566047373982433 / 2 ^ 55"
proof -
  have o: "0 < cent5" "cent5 \<le> cent21" by (simp_all add: cent5_eq cent21_eq)
  have 1: "map_option balance (map_of (wallets cents) addrA) = Some cent21"
    by (simp add: cents_wallets Wallet_def)
  have 2: "fst (addTransaction ''tx_2'' 4 addrA addrA cent5 cents) = Inr centsTx"
    using o by (simp add: addTransaction_def cents_wallets Wallet_def centsTx_def)
  have g: "round64 (round64 (cent21 - cent5) + cent5) = 7566047373982432 / 2 ^ 55"
    by (simp only: cent21_minus cent21_back)
  have 3: "map_option balance (map_of (processTransaction64 (wallets cents) centsTx) addrA) =
     Some (7566047373982432 / 2 ^ 55)"
    using addrA_not_System o
    by (simp add: processTransaction64_def centsTx_def Transaction_def cents_wallets getTo_def
          Wallet_def g)
  have 4: "(7566047373982432 / 2 ^ 55 :: rat) \<noteq> 7566047373982433 / 2 ^ 55" by simp
  have f: "finite64 (round64 (cent21 - cent5) + cent5)"
    by (simp add: cent21_minus) (simp add: cent5_eq finite64_def)
  from reachable64_cents o 1 2 3 4 f cent21_eq show ?thesis
    by (simp only: cent21_def[symmetric] cent5_def[symmetric] simp_thms)
qed

text \<open>The four outcomes of admission in the state after the genesis block.\<close>

theorem C4_pool_admission_witness:
  "list_all (\<lambda>e. 0 \<le> balance (snd e)) (wallets demo3) \<and>
   map_of (wallets demo3) ''nobody'' = None \<and>
   addTransaction ''tx_1'' 4 ''nobody'' addrB 30 demo3 = (Inl UnknownWallet, demo3) \<and>
   submitTransaction ''tx_1'' 4 ''nobody'' addrB 30 demo3 = (Inl UnknownWallet, demo3) \<and>
   map_of (wallets demo3) addrA = Some (Wallet addrA ''Alice'' 100 1) \<and>
   map_of (wallets demo3) addrB = Some (Wallet addrB ''Bob'' 0 2) \<and>
   balance (Wallet addrA ''Alice'' 100 1) < 1000 \<and>
   addTransaction ''tx_1'' 4 addrA addrB 1000 demo3 = (Inl InsufficientBalance, demo3) \<and>
   submitTransaction ''tx_1'' 4 addrA addrB 1000 demo3 = (Inl InsufficientBalance, demo3) \<and>
   (0::rat) \<le> 0 \<and>
   addTransaction ''tx_1'' 4 addrA addrB 0 demo3 = (Inl InvalidAmount, demo3) \<and>
   submitTransaction ''tx_1'' 4 addrA addrB 0 demo3 = (Inl InvalidAmount, demo3) \<and>
   (0::rat) < 30 \<and> 30 \<le> balance (Wallet addrA ''Alice'' 100 1) \<and>
   addTransaction ''tx_1'' 4 addrA addrB 30 demo3 =
     (Inr demoTx, demo3\<lparr>transactionPool := transactionPool demo3 @ [demoTx]\<rparr>) \<and>
   submitTransaction ''tx_1'' 4 addrA addrB 30 demo3 =
     (Inr demoTx, demo3\<lparr>transactionPool := transactionPool demo3 @ [demoTx]\<rparr>)"
proof -
  have w: "map_of (wallets demo3) ''nobody'' = None"
    "map_of (wallets demo3) addrA = Some (Wallet addrA ''Alice'' 100 1)"
    "map_of (wallets demo3) addrB = Some (Wallet addrB ''Bob'' 0 2)"
    using addr_distinct
    by (simp_all add: demo3_fields demo2_wallets addrA_def addrB_def generateAddress_def)
  have l: "list_all (\<lambda>e. 0 \<le> balance (snd e)) (wallets demo3)"
    by (simp add: demo3_fields demo2_wallets Wallet_def)
  then have n: "nonneg (wallets demo3)" by (simp add: nonneg_def list_all_iff)
  note c = C4_pool_admission[OF n, of "''tx_1''" 4]
  note unknown = c[THEN conjunct2, THEN conjunct1, THEN mp]
  note known = c[THEN conjunct2, THEN conjunct2, THEN conjunct1, rule_format]
  note failed = c[THEN conjunct2, THEN conjunct2, THEN conjunct2, rule_format]
  have ab: "map_of (wallets demo3) addrA = Some (Wallet addrA ''Alice'' 100 1) \<and>
      map_of (wallets demo3) addrB = Some (Wallet addrB ''Bob'' 0 2)"
    using w by simp
  have f1: "fst (addTransaction ''tx_1'' 4 ''nobody'' addrB 30 demo3) = Inl UnknownWallet"
    by (rule unknown) (simp add: w(1))
  have 1: "addTransaction ''tx_1'' 4 ''nobody'' addrB 30 demo3 = (Inl UnknownWallet, demo3)"
    using f1 failed[OF f1] by (simp add: prod_eq_iff)
  have f2: "fst (addTransaction ''tx_1'' 4 addrA addrB 1000 demo3) = Inl InsufficientBalance"
    using known[OF ab, of 1000] by (simp add: Wallet_def)
  have 2: "addTransaction ''tx_1'' 4 addrA addrB 1000 demo3 = (Inl InsufficientBalance, demo3)"
    using f2 failed[OF f2] by (simp add: prod_eq_iff)
  have f3: "fst (addTransaction ''tx_1'' 4 addrA addrB 0 demo3) = Inl InvalidAmount"
    using known[OF ab, of 0] by simp
  have 3: "addTransaction ''tx_1'' 4 addrA addrB 0 demo3 = (Inl InvalidAmount, demo3)"
    using f3 failed[OF f3] by (simp add: prod_eq_iff)
  have 4: "addTransaction ''tx_1'' 4 addrA addrB 30 demo3 =
     (Inr demoTx, demo3\<lparr>transactionPool := transactionPool demo3 @ [demoTx]\<rparr>)"
    using known[OF ab, of 30] by (simp add: Wallet_def demoTx_def)
  have e: "submitTransaction ''tx_1'' 4 f t a demo3 = addTransaction ''tx_1'' 4 f t a demo3" for f t a
    by (rule c[THEN conjunct1, symmetric])
  have b: "balance (Wallet addrA ''Alice'' 100 1) < 1000" "30 \<le> balance (Wallet addrA ''Alice'' 100 1)"
    by (simp_all add: Wallet_def)
  from l w 1 2 3 4 b show ?thesis by (simp only: e) simp
qed

end
